theory Spec2Isabelle
  imports Complex_Main "HOL-Library.Word"
begin

section \<open>Values, exceptions and the environment\<close>

text \<open>
  The program is \<^verbatim>\<open>src/main.py\<close>: a websocket handler that receives the media
  stream of a telephone call, buffers the audio of the two directions, mixes
  threshold-sized slices into stereo frames and sends them to a transcription
  connection. Audio bytes are 8-bit words; Python exceptions are values.
\<close>

type_synonym byte = "8 word"

datatype error =
  JSONDecodeError | AttributeError | TypeError | KeyError | IndexError
  | ValueError | BinasciiError | ConnectionFailed

datatype 'a result = Ok 'a | Raise error

text \<open>
  What \<^verbatim>\<open>json.loads\<close> returns: a dict is a map from its keys, a number is an
  int or a float (the handler only tests a number for being zero).
\<close>

datatype json =
  JNull | JBool bool | JInt int | JFloat real | JStr string
  | JArr "json list" | JObj "string \<Rightarrow> json option"

text \<open>
  A received websocket message, as \<^verbatim>\<open>json.loads\<close> sees it: text that is not JSON
  (the call raises), or text that decodes to a value.
\<close>

datatype frame = Malformed | Json json

text \<open>
  The library calls whose outcome the handler does not control:
  \<^verbatim>\<open>base64.b64decode\<close> on a string, and whether the n-th call of
  \<^verbatim>\<open>dg_client.transcription.live\<close> returns a socket (otherwise it raises).
\<close>

record env =
  b64decode :: "string \<Rightarrow> byte list result"
  dg_live :: "nat \<Rightarrow> bool"

text \<open>Python truthiness (\<^verbatim>\<open>if sid:\<close>, \<^verbatim>\<open>if transcript:\<close>).\<close>

fun truthy :: "json \<Rightarrow> bool" where
  "truthy JNull = False"
| "truthy (JBool b) = b"
| "truthy (JInt i) = (i \<noteq> 0)"
| "truthy (JFloat r) = (r \<noteq> 0)"
| "truthy (JStr s) = (s \<noteq> [])"
| "truthy (JArr xs) = (xs \<noteq> [])"
| "truthy (JObj m) = (m \<noteq> Map.empty)"

text \<open>\<^verbatim>\<open>d.get(k, default)\<close>: only a dict has the method.\<close>

fun py_get :: "json \<Rightarrow> string \<Rightarrow> json \<Rightarrow> json result" where
  "py_get (JObj m) k dflt = Ok (case m k of None \<Rightarrow> dflt | Some v \<Rightarrow> v)"
| "py_get _ k dflt = Raise AttributeError"

text \<open>
  \<^verbatim>\<open>x[0]\<close>: the first element of a list or string, IndexError when it is empty;
  a dict decoded from JSON has string keys only, so the key 0 is missing; the
  other values are not subscriptable.
\<close>

fun py_index0 :: "json \<Rightarrow> json result" where
  "py_index0 (JArr []) = Raise IndexError"
| "py_index0 (JArr (x # xs)) = Ok x"
| "py_index0 (JStr []) = Raise IndexError"
| "py_index0 (JStr (c # cs)) = Ok (JStr [c])"
| "py_index0 (JObj m) = Raise KeyError"
| "py_index0 _ = Raise TypeError"

text \<open>\<^verbatim>\<open>base64.b64decode(p)\<close>: a value that is not a string is a TypeError.\<close>

fun py_b64decode :: "env \<Rightarrow> json \<Rightarrow> byte list result" where
  "py_b64decode e (JStr t) = b64decode e t"
| "py_b64decode e _ = Raise TypeError"

section \<open>The mixer\<close>

text \<open>
  Modelled from the spec: the audio segment of the pydub library, which is not
  under src/, as the handler builds it: the raw bytes with the sample width in
  bytes, the frame rate and the number of channels (spec 4.1: mono, 8 kHz,
  8-bit samples).
\<close>

record audio_segment =
  raw_data :: "byte list"
  sample_width :: nat
  frame_rate :: nat
  channels :: nat

definition AudioSegment :: "byte list \<Rightarrow> nat \<Rightarrow> nat \<Rightarrow> nat \<Rightarrow> audio_segment" where
  "AudioSegment d sw fr ch =
     \<lparr>raw_data = d, sample_width = sw, frame_rate = fr, channels = ch\<rparr>"

text \<open>
  Modelled from the spec: interleaving two chunks sample by sample, the first
  chunk on channel 0 and the second on channel 1 (spec 4.1). The handler builds
  both segments with a sample width of one byte, so a sample is a byte.
\<close>

fun interleave :: "'a list \<Rightarrow> 'a list \<Rightarrow> 'a list" where
  "interleave (a # as) (b # bs) = a # b # interleave as bs"
| "interleave _ _ = []"

text \<open>
  Modelled from the spec: the mixer \<^verbatim>\<open>AudioSegment.from_mono_audiosegments\<close> is
  the pydub library's and is not under src/. The spec (4.1) says that it takes two
  mono chunks of identical length and interleaves them into a 2-channel stream
  of the same sample rate and per-sample width; chunks of mismatched length are
  a precondition violation, fatal to the call (7).
\<close>

definition from_mono_audiosegments ::
  "audio_segment \<Rightarrow> audio_segment \<Rightarrow> audio_segment result" where
  "from_mono_audiosegments a b =
     (if length (raw_data a) = length (raw_data b)
      then Ok \<lparr>raw_data = interleave (raw_data a) (raw_data b),
               sample_width = sample_width a, frame_rate = frame_rate a, channels = 2\<rparr>
      else Raise ValueError)"

text \<open>De-interleaving a stereo byte stream: the bytes at even and at odd positions.\<close>

fun channel0 :: "'a list \<Rightarrow> 'a list" where
  "channel0 (a # b # xs) = a # channel0 xs"
| "channel0 [a] = [a]"
| "channel0 [] = []"

fun channel1 :: "'a list \<Rightarrow> 'a list" where
  "channel1 (a # b # xs) = b # channel1 xs"
| "channel1 _ = []"

section \<open>The transcript handler\<close>

datatype log_entry =
  Error_text string
  | Error_exc error
  | Info_session_start json
  | Info_transcript json json

record active_call =
  sid :: json

text \<open>
  \<^verbatim>\<open>ActiveCall.get_transcript\<close>: the lines it logs, or the exception it raises.
\<close>

definition get_transcript :: "active_call \<Rightarrow> json \<Rightarrow> log_entry list result" where
  "get_transcript call data =
     (case py_get data ''channel'' (JObj Map.empty) of
        Raise e \<Rightarrow> Raise e
      | Ok ch \<Rightarrow>
     (case py_get ch ''alternatives'' (JArr [JObj Map.empty]) of
        Raise e \<Rightarrow> Raise e
      | Ok alts \<Rightarrow>
     (case py_index0 alts of
        Raise e \<Rightarrow> Raise e
      | Ok alt \<Rightarrow>
     (case py_get alt ''transcript'' JNull of
        Raise e \<Rightarrow> Raise e
      | Ok transcript \<Rightarrow>
          Ok (if truthy transcript then [Info_transcript (sid call) transcript] else [])))))"

section \<open>The media stream handler\<close>

text \<open>
  The handler's local variables (\<open>deepgram_socket\<close>, \<open>in_buffer\<close>, \<open>out_buffer\<close>)
  and the trace of its effects: the lines logged, the calls of
  \<^verbatim>\<open>transcription.live\<close> made, the sockets they returned (a socket is named by
  the number of the call that opened it), what was sent on which socket, and
  whether the websocket was closed.
\<close>

record state =
  deepgram_socket :: "nat option"
  in_buffer :: "byte list"
  out_buffer :: "byte list"
  logger :: "log_entry list"
  dg_attempts :: nat
  dg_opened :: "nat list"
  dg_sent :: "(nat \<times> byte list) list"
  ws_closed :: bool

definition buffer_size :: nat where
  "buffer_size = 20 * 160"

definition initial :: state where
  "initial = \<lparr>deepgram_socket = None, in_buffer = [], out_buffer = [], logger = [],
              dg_attempts = 0, dg_opened = [], dg_sent = [], ws_closed = False\<rparr>"

text \<open>How one pass through the body of \<^verbatim>\<open>while True\<close> ends.\<close>

datatype outcome = Continue | Break

text \<open>\<^verbatim>\<open>ActiveCall.connect_to_deepgram\<close>: the socket, or the exception of \<^verbatim>\<open>live\<close>.\<close>

definition connect_to_deepgram :: "env \<Rightarrow> active_call \<Rightarrow> state \<Rightarrow> nat result \<times> state" where
  "connect_to_deepgram e call s =
     (if dg_live e (dg_attempts s)
      then (Ok (dg_attempts s),
            s\<lparr>dg_attempts := Suc (dg_attempts s), dg_opened := dg_opened s @ [dg_attempts s]\<rparr>)
      else (Raise ConnectionFailed, s\<lparr>dg_attempts := Suc (dg_attempts s)\<rparr>))"

text \<open>The branch \<^verbatim>\<open>if event == "start"\<close>.\<close>

definition on_start :: "env \<Rightarrow> json \<Rightarrow> state \<Rightarrow> outcome result \<times> state" where
  "on_start e data s =
     (case py_get data ''start'' (JObj Map.empty) of
        Raise x \<Rightarrow> (Raise x, s)
      | Ok st \<Rightarrow>
     (case py_get st ''callSid'' JNull of
        Raise x \<Rightarrow> (Raise x, s)
      | Ok sd \<Rightarrow>
          if truthy sd then
            (case connect_to_deepgram e \<lparr>sid = sd\<rparr> s of
               (Raise x, s') \<Rightarrow> (Raise x, s')
             | (Ok k, s') \<Rightarrow>
                 (Ok Continue,
                  s'\<lparr>deepgram_socket := Some k,
                     logger := logger s' @ [Info_session_start sd]\<rparr>))
          else (Ok Continue, s)))"

text \<open>The branch \<^verbatim>\<open>elif event == "media"\<close>.\<close>

definition on_media :: "env \<Rightarrow> json \<Rightarrow> state \<Rightarrow> outcome result \<times> state" where
  "on_media e data s =
     (case py_get data ''media'' (JObj Map.empty) of
        Raise x \<Rightarrow> (Raise x, s)
      | Ok m \<Rightarrow>
     (case py_get m ''payload'' (JStr []) of
        Raise x \<Rightarrow> (Raise x, s)
      | Ok p \<Rightarrow>
     (case py_b64decode e p of
        Raise x \<Rightarrow> (Raise x, s)
      | Ok payload \<Rightarrow>
     (case py_get m ''track'' JNull of
        Raise x \<Rightarrow> (Raise x, s)
      | Ok track \<Rightarrow>
          (let s1 = (if track = JStr ''inbound''
                     then s\<lparr>in_buffer := in_buffer s @ payload\<rparr> else s);
               s2 = (if track = JStr ''outbound''
                     then s1\<lparr>out_buffer := out_buffer s1 @ payload\<rparr> else s1)
           in (Ok Continue, s2))))))"

text \<open>The branch \<^verbatim>\<open>elif event == "stop"\<close>: the empty send closes the connection.\<close>

definition on_stop :: "state \<Rightarrow> outcome result \<times> state" where
  "on_stop s =
     (case deepgram_socket s of
        None \<Rightarrow> (Ok Break, s)
      | Some k \<Rightarrow> (Ok Break, s\<lparr>dg_sent := dg_sent s @ [(k, [])]\<rparr>))"

text \<open>
  The mixing loop \<^verbatim>\<open>while len(in_buffer) >= buffer_size and len(out_buffer) >= buffer_size\<close>.
  \<^verbatim>\<open>deepgram_socket.send\<close> on \<^verbatim>\<open>None\<close> is an AttributeError, raised after the
  frame is mixed and before the buffers are trimmed.
\<close>

function mix_loop :: "state \<Rightarrow> outcome result \<times> state" where
  "mix_loop s =
     (if buffer_size \<le> length (in_buffer s) \<and> buffer_size \<le> length (out_buffer s) then
        (case from_mono_audiosegments
                (AudioSegment (take buffer_size (in_buffer s)) 1 8000 1)
                (AudioSegment (take buffer_size (out_buffer s)) 1 8000 1) of
           Raise x \<Rightarrow> (Raise x, s)
         | Ok mixed \<Rightarrow>
             (case deepgram_socket s of
                None \<Rightarrow> (Raise AttributeError, s)
              | Some k \<Rightarrow>
                  mix_loop (s\<lparr>dg_sent := dg_sent s @ [(k, raw_data mixed)],
                              in_buffer := drop buffer_size (in_buffer s),
                              out_buffer := drop buffer_size (out_buffer s)\<rparr>)))
      else (Ok Continue, s))"
  by pat_completeness auto
termination
  by (relation "measure (\<lambda>s. length (in_buffer s))") (auto simp: buffer_size_def)

declare mix_loop.simps [simp del]

text \<open>
  One pass through the body of \<^verbatim>\<open>while True\<close> for a received frame. The error
  line is logged after every successful \<^verbatim>\<open>json.loads\<close>; \<^verbatim>\<open>break\<close> skips the
  mixing loop.
\<close>

definition loop_body :: "env \<Rightarrow> frame \<Rightarrow> state \<Rightarrow> outcome result \<times> state" where
  "loop_body e f s =
     (case f of
        Malformed \<Rightarrow> (Raise JSONDecodeError, s)
      | Json data \<Rightarrow>
          (let s1 = s\<lparr>logger := logger s @ [Error_text ''Invalid JSON received.'']\<rparr> in
           case py_get data ''event'' JNull of
             Raise x \<Rightarrow> (Raise x, s1)
           | Ok event \<Rightarrow>
               (case (if event = JStr ''start'' then on_start e data s1
                      else if event = JStr ''media'' then on_media e data s1
                      else if event = JStr ''stop'' then on_stop s1
                      else (Ok Continue, s1)) of
                  (Ok Continue, s2) \<Rightarrow> mix_loop s2
                | (Ok Break, s2) \<Rightarrow> (Ok Break, s2)
                | (Raise x, s2) \<Rightarrow> (Raise x, s2))))"

text \<open>
  The loop over the frames received so far: \<open>Ok Continue\<close> when the handler is
  waiting for the next frame.
\<close>

fun event_loop :: "env \<Rightarrow> frame list \<Rightarrow> state \<Rightarrow> outcome result \<times> state" where
  "event_loop e [] s = (Ok Continue, s)"
| "event_loop e (f # fs) s =
     (case loop_body e f s of
        (Ok Continue, s') \<Rightarrow> event_loop e fs s'
      | (Ok Break, s') \<Rightarrow> (Ok Break, s')
      | (Raise x, s') \<Rightarrow> (Raise x, s'))"

text \<open>
  \<^verbatim>\<open>websocket_endpoint\<close>: \<^verbatim>\<open>except Exception\<close> logs the exception, \<^verbatim>\<open>finally\<close>
  closes the websocket.
\<close>

definition websocket_endpoint :: "env \<Rightarrow> frame list \<Rightarrow> state" where
  "websocket_endpoint e fs =
     (case event_loop e fs initial of
        (Ok Continue, s) \<Rightarrow> s
      | (Ok Break, s) \<Rightarrow> s\<lparr>ws_closed := True\<rparr>
      | (Raise x, s) \<Rightarrow> s\<lparr>logger := logger s @ [Error_exc x], ws_closed := True\<rparr>)"


section \<open>Events of the media stream and an environment for the examples\<close>

text \<open>
  The three event shapes of the media stream (spec, 6), as \<^verbatim>\<open>json.loads\<close>
  returns them.
\<close>

definition start_event :: "string \<Rightarrow> frame" where
  "start_event call_sid =
     Json (JObj [''event'' \<mapsto> JStr ''start'',
                 ''start'' \<mapsto> JObj [''callSid'' \<mapsto> JStr call_sid]])"

definition media_event :: "string \<Rightarrow> string \<Rightarrow> frame" where
  "media_event track payload =
     Json (JObj [''event'' \<mapsto> JStr ''media'',
                 ''media'' \<mapsto> JObj [''track'' \<mapsto> JStr track,
                                      ''payload'' \<mapsto> JStr payload]])"

definition stop_event :: frame where
  "stop_event = Json (JObj [''event'' \<mapsto> JStr ''stop''])"

text \<open>
  A sequence of direction-tagged appends is a list of (track, payload) pairs;
  the byte stream of one direction is the concatenation of the decoded payloads
  of its track.
\<close>

definition decoded :: "env \<Rightarrow> string \<Rightarrow> byte list" where
  "decoded e p = (case b64decode e p of Ok bs \<Rightarrow> bs | Raise x \<Rightarrow> [])"

definition stream :: "env \<Rightarrow> string \<Rightarrow> (string \<times> string) list \<Rightarrow> byte list" where
  "stream e tr appends =
     concat (map (\<lambda>(t, p). if t = tr then decoded e p else []) appends)"

definition decodable :: "env \<Rightarrow> (string \<times> string) list \<Rightarrow> bool" where
  "decodable e appends = list_all (\<lambda>(t, p). b64decode e p = Ok (decoded e p)) appends"

text \<open>
  The number of flushes that two buffers allow, and the i-th frame mixed from
  them: the i-th threshold-sized slice of each, interleaved.
\<close>

definition flushes :: "byte list \<Rightarrow> byte list \<Rightarrow> nat" where
  "flushes inb outb = min (length inb div buffer_size) (length outb div buffer_size)"

definition frame_at :: "byte list \<Rightarrow> byte list \<Rightarrow> nat \<Rightarrow> byte list" where
  "frame_at inb outb i =
     interleave (take buffer_size (drop (i * buffer_size) inb))
                (take buffer_size (drop (i * buffer_size) outb))"

text \<open>The bytes of the two channels that were sent to transcription, in order.\<close>

definition sent_channel0 :: "state \<Rightarrow> byte list" where
  "sent_channel0 s = concat (map (\<lambda>(k, d). channel0 d) (dg_sent s))"

definition sent_channel1 :: "state \<Rightarrow> byte list" where
  "sent_channel1 s = concat (map (\<lambda>(k, d). channel1 d) (dg_sent s))"

text \<open>Every send so far carried one threshold of bytes per channel.\<close>

definition counted :: "state \<Rightarrow> bool" where
  "counted s \<longleftrightarrow> length (sent_channel0 s) = length (dg_sent s) * buffer_size
              \<and> length (sent_channel1 s) = length (dg_sent s) * buffer_size"

text \<open>
  The sends that carry audio (the empty send is the terminator), and the
  transcription connections that were opened and not sent the terminator.
\<close>

definition audio_sends :: "state \<Rightarrow> (nat \<times> byte list) list" where
  "audio_sends s = filter (\<lambda>(k, d). d \<noteq> []) (dg_sent s)"

definition live_connections :: "state \<Rightarrow> nat list" where
  "live_connections s = filter (\<lambda>k. (k, []) \<notin> set (dg_sent s)) (dg_opened s)"

text \<open>A frame whose event field is \<open>start\<close>.\<close>

definition is_start_event :: "frame \<Rightarrow> bool" where
  "is_start_event f =
     (case f of Json (JObj d) \<Rightarrow> d ''event'' = Some (JStr ''start'') | _ \<Rightarrow> False)"

text \<open>
  The handle of the handler is the connection opened last; connections are
  numbered by the call that opened them. While the loop runs no terminator has
  been sent; when it has ended, a terminator was sent on the handle only.
\<close>

definition latest_handle :: "state \<Rightarrow> bool" where
  "latest_handle s \<longleftrightarrow>
     deepgram_socket s = (if dg_opened s = [] then None else Some (last (dg_opened s)))
     \<and> list_all (\<lambda>k. k < dg_attempts s) (dg_opened s)
     \<and> distinct (dg_opened s)"

definition handle_inv :: "state \<Rightarrow> bool" where
  "handle_inv s \<longleftrightarrow> latest_handle s \<and> list_all (\<lambda>(k, d). d \<noteq> []) (dg_sent s)"

definition handle_fin :: "state \<Rightarrow> bool" where
  "handle_fin s \<longleftrightarrow>
     latest_handle s \<and> list_all (\<lambda>(k, d). d \<noteq> [] \<or> deepgram_socket s = Some k) (dg_sent s)"

text \<open>
  The standard decoding of canonical base64 text (groups of four digits, the
  last one padded with \<open>=\<close>). The handler takes the decoder from the
  environment; this one instantiates it in the examples, where every payload is
  canonical.
\<close>

definition b64_digit :: "char \<Rightarrow> nat option" where
  "b64_digit c =
     (let n = (of_char c :: nat) in
      if 65 \<le> n \<and> n \<le> 90 then Some (n - 65)
      else if 97 \<le> n \<and> n \<le> 122 then Some (n - 71)
      else if 48 \<le> n \<and> n \<le> 57 then Some (n + 4)
      else if n = 43 then Some 62
      else if n = 47 then Some 63
      else None)"

definition b64_quad :: "char \<Rightarrow> char \<Rightarrow> char \<Rightarrow> char \<Rightarrow> byte list result" where
  "b64_quad a b c d =
     (case (b64_digit a, b64_digit b, b64_digit c, b64_digit d) of
        (Some w, Some x, Some y, Some z) \<Rightarrow>
          (let n = ((w * 64 + x) * 64 + y) * 64 + z
           in Ok [of_nat (n div 65536), of_nat (n div 256), of_nat n])
      | _ \<Rightarrow> Raise BinasciiError)"

fun b64_canonical :: "string \<Rightarrow> byte list result" where
  "b64_canonical [] = Ok []"
| "b64_canonical (a # b # c # d # rest) =
     (if rest = [] \<and> d = CHR ''='' then
        (if c = CHR ''='' then
           (case b64_quad a b (CHR ''A'') (CHR ''A'') of
              Ok bs \<Rightarrow> Ok (take 1 bs) | Raise x \<Rightarrow> Raise x)
         else
           (case b64_quad a b c (CHR ''A'') of
              Ok bs \<Rightarrow> Ok (take 2 bs) | Raise x \<Rightarrow> Raise x))
      else
        (case b64_quad a b c d of
           Raise x \<Rightarrow> Raise x
         | Ok bs \<Rightarrow>
             (case b64_canonical rest of
                Raise x \<Rightarrow> Raise x
              | Ok bs2 \<Rightarrow> Ok (bs @ bs2))))"
| "b64_canonical _ = Raise BinasciiError"


definition env_ok :: env where
  "env_ok = \<lparr>b64decode = b64_canonical, dg_live = (\<lambda>n. True)\<rparr>"

definition env_down :: env where
  "env_down = \<lparr>b64decode = b64_canonical, dg_live = (\<lambda>n. False)\<rparr>"

section \<open>The mixer interleaves\<close>

lemma length_interleave: "length as = length bs \<Longrightarrow> length (interleave as bs) = 2 * length as"
  by (induction as bs rule: list_induct2) simp_all

lemma channel0_interleave: "length as = length bs \<Longrightarrow> channel0 (interleave as bs) = as"
  by (induction as bs rule: list_induct2) simp_all

lemma channel1_interleave: "length as = length bs \<Longrightarrow> channel1 (interleave as bs) = bs"
  by (induction as bs rule: list_induct2) simp_all

lemma nth_interleave:
  "length as = length bs \<Longrightarrow> i < length as \<Longrightarrow>
     interleave as bs ! (2 * i) = as ! i \<and> interleave as bs ! Suc (2 * i) = bs ! i"
proof (induction as bs arbitrary: i rule: list_induct2)
  case Nil
  then show ?case by simp
next
  case (Cons a as b bs)
  then show ?case by (cases i) simp_all
qed

text \<open>
  C2. Two chunks of the same length N are mixed into a stereo segment of length
  2N whose bytes at even positions are the first chunk (channel 0) and whose
  bytes at odd positions are the second (channel 1); de-interleaving recovers
  both chunks.
\<close>

theorem mixing_round_trip:
  assumes "length A = length B"
  shows "\<exists>m. from_mono_audiosegments (AudioSegment A 1 8000 1) (AudioSegment B 1 8000 1) = Ok m
           \<and> length (raw_data m) = 2 * length A
           \<and> (\<forall>i<length A. raw_data m ! (2 * i) = A ! i \<and> raw_data m ! (2 * i + 1) = B ! i)
           \<and> channel0 (raw_data m) = A \<and> channel1 (raw_data m) = B
           \<and> channels m = 2 \<and> sample_width m = 1 \<and> frame_rate m = 8000"
  using assms
  by (simp add: from_mono_audiosegments_def AudioSegment_def length_interleave
      channel0_interleave channel1_interleave nth_interleave)

theorem mixing_round_trip_witness:
  "length [1, 2, 3 :: byte] = length [4, 5, 6 :: byte]
   \<and> (\<exists>m. from_mono_audiosegments (AudioSegment [1, 2, 3] 1 8000 1) (AudioSegment [4, 5, 6] 1 8000 1) = Ok m
        \<and> raw_data m = [1, 4, 2, 5, 3, 6]
        \<and> channel0 (raw_data m) = [1, 2, 3] \<and> channel1 (raw_data m) = [4, 5, 6])"
  using mixing_round_trip [of "[1, 2, 3 :: byte]" "[4, 5, 6 :: byte]"]
  by (auto simp: from_mono_audiosegments_def AudioSegment_def)

section \<open>The canonical decoder on the payloads of the examples\<close>

lemma b64_quad_A: "b64_quad (CHR ''A'') (CHR ''A'') (CHR ''A'') (CHR ''A'') = Ok [0, 0, 0]"
  by (simp add: b64_quad_def b64_digit_def)

lemma replicate_3_plus: "replicate (3 + n) x = x # x # x # replicate n x"
  by (simp add: numeral_3_eq_3)

lemma b64_canonical_A:
  "b64_canonical (concat (replicate k ''AAAA'') @ rest) =
     (case b64_canonical rest of Raise x \<Rightarrow> Raise x | Ok bs2 \<Rightarrow> Ok (replicate (3 * k) 0 @ bs2))"
  by (induction k) (simp_all add: b64_quad_A replicate_3_plus split: result.splits)

lemma b64_canonical_zeros:
  "b64_canonical (concat (replicate k ''AAAA'')) = Ok (replicate (3 * k) 0)"
  using b64_canonical_A [of k "[]"] by simp

lemma b64_canonical_zeros1:
  "b64_canonical (concat (replicate k ''AAAA'') @ ''AA=='') = Ok (replicate (3 * k + 1) 0)"
  by (simp add: b64_canonical_A b64_quad_A replicate_append_same)

section \<open>The mixing loop\<close>

lemma buffer_size_pos: "0 < buffer_size"
  by (simp add: buffer_size_def)

lemma flushes_0: "\<not> (buffer_size \<le> length inb \<and> buffer_size \<le> length outb) \<Longrightarrow> flushes inb outb = 0"
  by (auto simp: flushes_def not_le)

lemma flushes_pos_iff:
  "0 < flushes inb outb \<longleftrightarrow> buffer_size \<le> length inb \<and> buffer_size \<le> length outb"
  using buffer_size_pos by (auto simp: flushes_def div_greater_zero_iff)

lemma flushes_drop:
  "buffer_size \<le> length inb \<Longrightarrow> buffer_size \<le> length outb \<Longrightarrow>
     flushes inb outb = Suc (flushes (drop buffer_size inb) (drop buffer_size outb))"
  using buffer_size_pos by (simp add: flushes_def le_div_geq)

lemma frame_at_drop:
  "frame_at (drop buffer_size inb) (drop buffer_size outb) i = frame_at inb outb (Suc i)"
  by (simp add: frame_at_def add.commute)

lemma mixed_slices:
  "buffer_size \<le> length inb \<Longrightarrow> buffer_size \<le> length outb \<Longrightarrow>
     from_mono_audiosegments (AudioSegment (take buffer_size inb) sw fr ch)
                             (AudioSegment (take buffer_size outb) sw fr ch)
       = Ok \<lparr>raw_data = frame_at inb outb 0, sample_width = sw, frame_rate = fr, channels = 2\<rparr>"
  by (simp add: from_mono_audiosegments_def AudioSegment_def frame_at_def min_absorb2)

lemma map_upt_Suc_shift: "map f [0..<Suc n] = f 0 # map (\<lambda>i. f (Suc i)) [0..<n]"
  by (simp only: map_upt_Suc) 

lemma mix_loop_live:
  "deepgram_socket s = Some k \<Longrightarrow>
     mix_loop s =
       (Ok Continue,
        s\<lparr>dg_sent := dg_sent s @ map (\<lambda>i. (k, frame_at (in_buffer s) (out_buffer s) i))
                                    [0..<flushes (in_buffer s) (out_buffer s)],
           in_buffer := drop (flushes (in_buffer s) (out_buffer s) * buffer_size) (in_buffer s),
           out_buffer := drop (flushes (in_buffer s) (out_buffer s) * buffer_size) (out_buffer s)\<rparr>)"
proof (induction s rule: mix_loop.induct)
  case (1 s)
  show ?case
  proof (cases "buffer_size \<le> length (in_buffer s) \<and> buffer_size \<le> length (out_buffer s)")
    case False
    then have "flushes (in_buffer s) (out_buffer s) = 0"
      by (rule flushes_0)
    then show ?thesis
      by (subst mix_loop.simps) (simp add: False)
  next
    case True
    let ?s1 = "s\<lparr>dg_sent := dg_sent s @ [(k, frame_at (in_buffer s) (out_buffer s) 0)],
                  in_buffer := drop buffer_size (in_buffer s),
                  out_buffer := drop buffer_size (out_buffer s)\<rparr>"
    have step: "mix_loop s = mix_loop ?s1"
      by (subst mix_loop.simps) (simp add: True "1.prems" mixed_slices)
    have ih: "mix_loop ?s1 =
       (Ok Continue,
        ?s1\<lparr>dg_sent := dg_sent ?s1 @ map (\<lambda>i. (k, frame_at (in_buffer ?s1) (out_buffer ?s1) i))
                                    [0..<flushes (in_buffer ?s1) (out_buffer ?s1)],
           in_buffer := drop (flushes (in_buffer ?s1) (out_buffer ?s1) * buffer_size) (in_buffer ?s1),
           out_buffer := drop (flushes (in_buffer ?s1) (out_buffer ?s1) * buffer_size) (out_buffer ?s1)\<rparr>)"
      using "1.IH" [OF True mixed_slices "1.prems"] True "1.prems"
      by simp
    have fl: "flushes (in_buffer s) (out_buffer s)
               = Suc (flushes (drop buffer_size (in_buffer s)) (drop buffer_size (out_buffer s)))"
      using True by (simp add: flushes_drop)
    show ?thesis
      unfolding step ih fl
      by (simp add: frame_at_drop map_upt_Suc_shift add.commute del: upt_Suc)
  qed
qed

lemma mix_loop_absent:
  "deepgram_socket s = None \<Longrightarrow>
     mix_loop s = (if buffer_size \<le> length (in_buffer s) \<and> buffer_size \<le> length (out_buffer s)
                   then (Raise AttributeError, s) else (Ok Continue, s))"
  by (subst mix_loop.simps) (simp add: mixed_slices)

lemma loop_body_media:
  assumes "b64decode e p = Ok bs"
  shows "loop_body e (media_event t p) s =
           mix_loop (s\<lparr>logger := logger s @ [Error_text ''Invalid JSON received.''],
                       in_buffer := in_buffer s @ (if t = ''inbound'' then bs else []),
                       out_buffer := out_buffer s @ (if t = ''outbound'' then bs else [])\<rparr>)"
  using assms by (simp add: loop_body_def media_event_def on_media_def Let_def)

lemma loop_body_media_live:
  assumes "b64decode e p = Ok bs" and "deepgram_socket s = Some k"
    and "inb = in_buffer s @ (if t = ''inbound'' then bs else [])"
    and "outb = out_buffer s @ (if t = ''outbound'' then bs else [])"
  shows "loop_body e (media_event t p) s =
           (Ok Continue,
            s\<lparr>logger := logger s @ [Error_text ''Invalid JSON received.''],
               dg_sent := dg_sent s @ map (\<lambda>i. (k, frame_at inb outb i)) [0..<flushes inb outb],
               in_buffer := drop (flushes inb outb * buffer_size) inb,
               out_buffer := drop (flushes inb outb * buffer_size) outb\<rparr>)"
  unfolding loop_body_media [OF assms(1)] using assms(2-4)
  by (subst mix_loop_live [where k = k]) simp_all

lemma flushes_le_in: "flushes inb outb * buffer_size \<le> length inb"
proof -
  have "flushes inb outb \<le> length inb div buffer_size"
    by (simp add: flushes_def)
  then have "flushes inb outb * buffer_size \<le> length inb div buffer_size * buffer_size"
    by (rule mult_le_mono1)
  also have "\<dots> \<le> length inb" by simp
  finally show ?thesis .
qed

lemma flushes_le_out: "flushes inb outb * buffer_size \<le> length outb"
proof -
  have "flushes inb outb \<le> length outb div buffer_size"
    by (simp add: flushes_def)
  then have "flushes inb outb * buffer_size \<le> length outb div buffer_size * buffer_size"
    by (rule mult_le_mono1)
  also have "\<dots> \<le> length outb" by simp
  finally show ?thesis .
qed

lemma take_Suc_slices:
  "take (Suc n * buffer_size) xs = take (n * buffer_size) xs @ take buffer_size (drop (n * buffer_size) xs)"
proof -
  have "Suc n * buffer_size = n * buffer_size + buffer_size" by simp
  then show ?thesis by (simp only: take_add)
qed

lemma residual_below:
  "length (drop (flushes inb outb * buffer_size) inb) < buffer_size
   \<or> length (drop (flushes inb outb * buffer_size) outb) < buffer_size"
proof (cases "length inb div buffer_size \<le> length outb div buffer_size")
  case True
  then have "flushes inb outb = length inb div buffer_size" by (simp add: flushes_def)
  then have "length (drop (flushes inb outb * buffer_size) inb) = length inb mod buffer_size"
    by (simp add: minus_div_mult_eq_mod)
  then show ?thesis using buffer_size_pos by simp
next
  case False
  then have "flushes inb outb = length outb div buffer_size" by (simp add: flushes_def)
  then have "length (drop (flushes inb outb * buffer_size) outb) = length outb mod buffer_size"
    by (simp add: minus_div_mult_eq_mod)
  then show ?thesis using buffer_size_pos by simp
qed

lemma frame_channels:
  assumes "Suc i * buffer_size \<le> length inb" and "Suc i * buffer_size \<le> length outb"
  shows "channel0 (frame_at inb outb i) = take buffer_size (drop (i * buffer_size) inb)"
    and "channel1 (frame_at inb outb i) = take buffer_size (drop (i * buffer_size) outb)"
    and "length (frame_at inb outb i) = 2 * buffer_size"
proof -
  have "length (take buffer_size (drop (i * buffer_size) inb)) = buffer_size"
    "length (take buffer_size (drop (i * buffer_size) outb)) = buffer_size"
    using assms by simp_all
  then show "channel0 (frame_at inb outb i) = take buffer_size (drop (i * buffer_size) inb)"
    "channel1 (frame_at inb outb i) = take buffer_size (drop (i * buffer_size) outb)"
    "length (frame_at inb outb i) = 2 * buffer_size"
    unfolding frame_at_def
    by (simp_all only: channel0_interleave channel1_interleave length_interleave)
qed

lemma concat_channel0_frames:
  "n * buffer_size \<le> length inb \<Longrightarrow> n * buffer_size \<le> length outb \<Longrightarrow>
     concat (map (\<lambda>i. channel0 (frame_at inb outb i)) [0..<n]) = take (n * buffer_size) inb"
proof (induction n)
  case 0
  then show ?case by simp
next
  case (Suc n)
  then have "concat (map (\<lambda>i. channel0 (frame_at inb outb i)) [0..<n]) = take (n * buffer_size) inb"
    by simp
  moreover have "channel0 (frame_at inb outb n) = take buffer_size (drop (n * buffer_size) inb)"
    using Suc.prems by (rule frame_channels)
  ultimately show ?case
    by (simp add: take_Suc_slices del: mult_Suc)
qed

lemma concat_channel1_frames:
  "n * buffer_size \<le> length inb \<Longrightarrow> n * buffer_size \<le> length outb \<Longrightarrow>
     concat (map (\<lambda>i. channel1 (frame_at inb outb i)) [0..<n]) = take (n * buffer_size) outb"
proof (induction n)
  case 0
  then show ?case by simp
next
  case (Suc n)
  then have "concat (map (\<lambda>i. channel1 (frame_at inb outb i)) [0..<n]) = take (n * buffer_size) outb"
    by simp
  moreover have "channel1 (frame_at inb outb n) = take buffer_size (drop (n * buffer_size) outb)"
    using Suc.prems by (rule frame_channels)
  ultimately show ?case
    by (simp add: take_Suc_slices del: mult_Suc)
qed


text \<open>
  The flush in a session with a transcription connection: after a media event
  has appended its bytes, mixed frames are sent if and only if both buffers hold
  at least the threshold of 20 * 160 = 3200 bytes; the i-th frame is mixed from
  the i-th threshold-sized slice of each buffer, every flush removes exactly
  these slices from the front of both buffers, and the loop stops as soon as one
  buffer holds fewer than threshold bytes. The state is arbitrary, so this
  holds after every sequence of appends to such a session.
\<close>

theorem threshold_flush:
  assumes "deepgram_socket s = Some k" and "b64decode e p = Ok bs"
    and "inb = in_buffer s @ (if t = ''inbound'' then bs else [])"
    and "outb = out_buffer s @ (if t = ''outbound'' then bs else [])"
  shows "\<exists>s'. loop_body e (media_event t p) s = (Ok Continue, s')
          \<and> dg_sent s' = dg_sent s @ map (\<lambda>i. (k, frame_at inb outb i)) [0..<flushes inb outb]
          \<and> in_buffer s' = drop (flushes inb outb * buffer_size) inb
          \<and> out_buffer s' = drop (flushes inb outb * buffer_size) outb
          \<and> (dg_sent s' \<noteq> dg_sent s \<longleftrightarrow>
               buffer_size \<le> length inb \<and> buffer_size \<le> length outb)
          \<and> (\<forall>i < flushes inb outb.
                 channel0 (frame_at inb outb i) = take buffer_size (drop (i * buffer_size) inb)
               \<and> channel1 (frame_at inb outb i) = take buffer_size (drop (i * buffer_size) outb))
          \<and> (length (in_buffer s') < buffer_size \<or> length (out_buffer s') < buffer_size)
          \<and> buffer_size = 3200"
proof -
  let ?n = "flushes inb outb"
  let ?s' = "s\<lparr>logger := logger s @ [Error_text ''Invalid JSON received.''],
               dg_sent := dg_sent s @ map (\<lambda>i. (k, frame_at inb outb i)) [0..<?n],
               in_buffer := drop (?n * buffer_size) inb,
               out_buffer := drop (?n * buffer_size) outb\<rparr>"
  have run: "loop_body e (media_event t p) s = (Ok Continue, ?s')"
    using assms(2,1,3,4) by (rule loop_body_media_live)
  have iff: "dg_sent ?s' \<noteq> dg_sent s \<longleftrightarrow> buffer_size \<le> length inb \<and> buffer_size \<le> length outb"
    using flushes_pos_iff [of inb outb] by simp
  have slices: "channel0 (frame_at inb outb i) = take buffer_size (drop (i * buffer_size) inb)
               \<and> channel1 (frame_at inb outb i) = take buffer_size (drop (i * buffer_size) outb)"
    if "i < ?n" for i
  proof -
    from that have "Suc i * buffer_size \<le> ?n * buffer_size"
      by (intro mult_le_mono1) simp
    then have "Suc i * buffer_size \<le> length inb" "Suc i * buffer_size \<le> length outb"
      using flushes_le_in [of inb outb] flushes_le_out [of inb outb] by linarith+
    then show ?thesis by (simp only: frame_channels)
  qed
  have res: "length (in_buffer ?s') < buffer_size \<or> length (out_buffer ?s') < buffer_size"
    using residual_below [of inb outb] by simp
  have "dg_sent ?s' = dg_sent s @ map (\<lambda>i. (k, frame_at inb outb i)) [0..<?n]"
    "in_buffer ?s' = drop (?n * buffer_size) inb" "out_buffer ?s' = drop (?n * buffer_size) outb"
    by simp_all
  with run iff slices res show ?thesis
    by (intro exI [of _ ?s'] conjI allI impI) (simp_all add: buffer_size_def)
qed

theorem threshold_flush_witness:
  "\<exists>s'. loop_body env_ok (media_event ''inbound'' (concat (replicate 1067 ''AAAA'')))
            (initial\<lparr>deepgram_socket := Some 0, out_buffer := replicate 3200 7\<rparr>)
          = (Ok Continue, s')
       \<and> length (dg_sent s') = 1
       \<and> in_buffer s' = [0] \<and> out_buffer s' = []"
  using threshold_flush [of "initial\<lparr>deepgram_socket := Some 0, out_buffer := replicate 3200 7\<rparr>" 0
      env_ok "concat (replicate 1067 ''AAAA'')" "replicate 3201 0" "replicate 3201 0"
      "''inbound''" "replicate 3200 7"]
  by (auto simp: initial_def env_ok_def b64_canonical_zeros flushes_def buffer_size_def)

section \<open>Runs of media events\<close>

lemma media_step:
  assumes dec: "b64decode e p = Ok bs" and live: "deepgram_socket s = Some k"
    and inb: "inb = in_buffer s @ (if t = ''inbound'' then bs else [])"
    and outb: "outb = out_buffer s @ (if t = ''outbound'' then bs else [])"
  shows "\<exists>s'. loop_body e (media_event t p) s = (Ok Continue, s')
          \<and> deepgram_socket s' = Some k
          \<and> sent_channel0 s' @ in_buffer s' = sent_channel0 s @ inb
          \<and> sent_channel1 s' @ out_buffer s' = sent_channel1 s @ outb
          \<and> (length (in_buffer s') < buffer_size \<or> length (out_buffer s') < buffer_size)
          \<and> (counted s \<longrightarrow> counted s')
          \<and> ws_closed s' = ws_closed s \<and> dg_opened s' = dg_opened s
          \<and> set (map fst (dg_sent s')) \<subseteq> set (map fst (dg_sent s)) \<union> {k}"
proof -
  let ?n = "flushes inb outb"
  let ?s' = "s\<lparr>logger := logger s @ [Error_text ''Invalid JSON received.''],
               dg_sent := dg_sent s @ map (\<lambda>i. (k, frame_at inb outb i)) [0..<?n],
               in_buffer := drop (?n * buffer_size) inb,
               out_buffer := drop (?n * buffer_size) outb\<rparr>"
  have run: "loop_body e (media_event t p) s = (Ok Continue, ?s')"
    using dec live inb outb by (rule loop_body_media_live)
  have c0: "sent_channel0 ?s' = sent_channel0 s @ take (?n * buffer_size) inb"
    using concat_channel0_frames [OF flushes_le_in flushes_le_out, of inb outb]
    by (simp add: sent_channel0_def comp_def)
  have c1: "sent_channel1 ?s' = sent_channel1 s @ take (?n * buffer_size) outb"
    using concat_channel1_frames [OF flushes_le_in flushes_le_out, of inb outb]
    by (simp add: sent_channel1_def comp_def)
  have res: "length (in_buffer ?s') < buffer_size \<or> length (out_buffer ?s') < buffer_size"
    using residual_below [of inb outb] by simp
  have cnt: "counted ?s'" if "counted s"
    using that flushes_le_in [of inb outb] flushes_le_out [of inb outb]
    unfolding counted_def c0 c1 by (simp add: min_absorb2 add_mult_distrib)
  have "sent_channel0 ?s' @ in_buffer ?s' = sent_channel0 s @ inb"
    "sent_channel1 ?s' @ out_buffer ?s' = sent_channel1 s @ outb"
    unfolding c0 c1 by simp_all
  moreover have "set (map fst (dg_sent ?s')) \<subseteq> set (map fst (dg_sent s)) \<union> {k}"
    by auto
  ultimately show ?thesis
    using run res cnt live by (intro exI [of _ ?s']) simp
qed

lemma stream_Cons:
  "stream e tr ((t, p) # appends) = (if t = tr then decoded e p else []) @ stream e tr appends"
  by (simp add: stream_def)

lemma media_run:
  assumes "decodable e appends" and "deepgram_socket s = Some k"
  shows "\<exists>s'. event_loop e (map (\<lambda>(t, p). media_event t p) appends) s = (Ok Continue, s')
          \<and> deepgram_socket s' = Some k
          \<and> sent_channel0 s' @ in_buffer s' = sent_channel0 s @ in_buffer s @ stream e ''inbound'' appends
          \<and> sent_channel1 s' @ out_buffer s' = sent_channel1 s @ out_buffer s @ stream e ''outbound'' appends
          \<and> (length (in_buffer s) < buffer_size \<or> length (out_buffer s) < buffer_size
                \<longrightarrow> length (in_buffer s') < buffer_size \<or> length (out_buffer s') < buffer_size)
          \<and> (counted s \<longrightarrow> counted s')
          \<and> ws_closed s' = ws_closed s \<and> dg_opened s' = dg_opened s
          \<and> set (map fst (dg_sent s')) \<subseteq> set (map fst (dg_sent s)) \<union> {k}"
  using assms
proof (induction appends arbitrary: s)
  case Nil
  then show ?case by (auto simp: stream_def)
next
  case (Cons a appends)
  obtain t p where a: "a = (t, p)" by (cases a)
  from Cons.prems(1) have dec: "b64decode e p = Ok (decoded e p)" and rest: "decodable e appends"
    by (simp_all add: decodable_def a)
  from media_step [OF dec Cons.prems(2) refl refl, of t]
  obtain s1 where s1: "loop_body e (media_event t p) s = (Ok Continue, s1)"
    and live1: "deepgram_socket s1 = Some k"
    and in1: "sent_channel0 s1 @ in_buffer s1
                = sent_channel0 s @ in_buffer s @ (if t = ''inbound'' then decoded e p else [])"
    and out1: "sent_channel1 s1 @ out_buffer s1
                = sent_channel1 s @ out_buffer s @ (if t = ''outbound'' then decoded e p else [])"
    and res1: "length (in_buffer s1) < buffer_size \<or> length (out_buffer s1) < buffer_size"
    and cnt1: "counted s \<longrightarrow> counted s1"
    and same1: "ws_closed s1 = ws_closed s" "dg_opened s1 = dg_opened s"
    and sock1: "set (map fst (dg_sent s1)) \<subseteq> set (map fst (dg_sent s)) \<union> {k}"
    by blast
  from Cons.IH [OF rest live1]
  obtain s' where s': "event_loop e (map (\<lambda>(t, p). media_event t p) appends) s1 = (Ok Continue, s')"
    and live': "deepgram_socket s' = Some k"
    and in': "sent_channel0 s' @ in_buffer s'
                = sent_channel0 s1 @ in_buffer s1 @ stream e ''inbound'' appends"
    and out': "sent_channel1 s' @ out_buffer s'
                = sent_channel1 s1 @ out_buffer s1 @ stream e ''outbound'' appends"
    and res': "length (in_buffer s1) < buffer_size \<or> length (out_buffer s1) < buffer_size
                \<longrightarrow> length (in_buffer s') < buffer_size \<or> length (out_buffer s') < buffer_size"
    and cnt': "counted s1 \<longrightarrow> counted s'"
    and same': "ws_closed s' = ws_closed s1" "dg_opened s' = dg_opened s1"
    and sock': "set (map fst (dg_sent s')) \<subseteq> set (map fst (dg_sent s1)) \<union> {k}"
    by blast
  have run: "event_loop e (map (\<lambda>(t, p). media_event t p) (a # appends)) s = (Ok Continue, s')"
    by (simp add: a s1 s')
  have in_eq: "sent_channel0 s' @ in_buffer s'
         = sent_channel0 s @ in_buffer s @ stream e ''inbound'' (a # appends)"
    using in' in1 unfolding a stream_Cons
    by (metis append.assoc)
  have out_eq: "sent_channel1 s' @ out_buffer s'
         = sent_channel1 s @ out_buffer s @ stream e ''outbound'' (a # appends)"
    using out' out1 unfolding a stream_Cons
    by (metis append.assoc)
  have res_eq: "length (in_buffer s) < buffer_size \<or> length (out_buffer s) < buffer_size
                \<longrightarrow> length (in_buffer s') < buffer_size \<or> length (out_buffer s') < buffer_size"
    using res1 res' by blast
  have cnt_eq: "counted s \<longrightarrow> counted s'"
    using cnt1 cnt' by blast
  have same: "ws_closed s' = ws_closed s" "dg_opened s' = dg_opened s"
    using same1 same' by simp_all
  have sock_eq: "set (map fst (dg_sent s')) \<subseteq> set (map fst (dg_sent s)) \<union> {k}"
    using sock1 sock' by blast
  show ?case
    by (intro exI [of _ s'] conjI) (rule run live' in_eq out_eq res_eq cnt_eq same sock_eq)+
qed

section \<open>Start, stop and whole sessions\<close>

lemma mix_loop_idle:
  assumes "\<not> (buffer_size \<le> length (in_buffer s) \<and> buffer_size \<le> length (out_buffer s))"
  shows "mix_loop s = (Ok Continue, s)"
  by (subst mix_loop.simps) (simp add: assms)

lemma loop_body_start:
  assumes "sd \<noteq> []" and "dg_live e (dg_attempts s)"
  shows "loop_body e (start_event sd) s =
           mix_loop (s\<lparr>logger := logger s @ [Error_text ''Invalid JSON received.'',
                                              Info_session_start (JStr sd)],
                       dg_attempts := Suc (dg_attempts s),
                       dg_opened := dg_opened s @ [dg_attempts s],
                       deepgram_socket := Some (dg_attempts s)\<rparr>)"
  using assms
  by (simp add: loop_body_def start_event_def on_start_def connect_to_deepgram_def)
    (intro arg_cong [where f = mix_loop] state.equality; simp)

lemma loop_body_start_fails:
  assumes "sd \<noteq> []" and "\<not> dg_live e (dg_attempts s)"
  shows "loop_body e (start_event sd) s =
           (Raise ConnectionFailed,
            s\<lparr>logger := logger s @ [Error_text ''Invalid JSON received.''],
               dg_attempts := Suc (dg_attempts s)\<rparr>)"
  using assms
  by (simp add: loop_body_def start_event_def on_start_def connect_to_deepgram_def)

lemma loop_body_stop:
  "loop_body e stop_event s =
     (Ok Break,
      s\<lparr>logger := logger s @ [Error_text ''Invalid JSON received.''],
         dg_sent := dg_sent s @ (case deepgram_socket s of None \<Rightarrow> [] | Some k \<Rightarrow> [(k, [])])\<rparr>)"
  by (simp add: loop_body_def stop_event_def on_stop_def split: option.splits)

lemma loop_body_malformed: "loop_body e Malformed s = (Raise JSONDecodeError, s)"
  by (simp add: loop_body_def)

lemma event_loop_append:
  "event_loop e (fs @ gs) s =
     (case event_loop e fs s of
        (Ok Continue, s') \<Rightarrow> event_loop e gs s'
      | (Ok Break, s') \<Rightarrow> (Ok Break, s')
      | (Raise x, s') \<Rightarrow> (Raise x, s'))"
  by (induction fs arbitrary: s) (auto split: prod.splits result.splits outcome.splits)

lemma count_frames:
  fixes n a b T :: nat
  assumes "a < T \<or> b < T"
  shows "min (n * T + a) (n * T + b) div T = n"
proof -
  have "min (n * T + a) (n * T + b) = n * T + min a b" by simp
  moreover have "min a b < T" using assms by auto
  ultimately show ?thesis by simp
qed

lemma started:
  assumes "sd \<noteq> []" and "dg_live e 0"
  shows "loop_body e (start_event sd) initial =
           (Ok Continue,
            initial\<lparr>logger := [Error_text ''Invalid JSON received.'', Info_session_start (JStr sd)],
                    dg_attempts := Suc 0, dg_opened := [0], deepgram_socket := Some 0\<rparr>)"
proof -
  have "dg_live e (dg_attempts initial)" using assms(2) by (simp add: initial_def)
  from loop_body_start [OF assms(1) this] show ?thesis
    by (simp add: initial_def mix_loop_idle buffer_size_def)
qed

text \<open>
  C3, amended. In a session opened by a start event that carries a call
  identifier and whose transcription connection was opened, after any sequence
  of media events with decodable payloads the channel-0 bytes of the frames
  sent so far, in the order sent, followed by the bytes still in the inbound
  buffer are exactly the inbound byte stream in arrival order, and likewise
  channel 1, the outbound buffer and the outbound stream: what was sent is a
  prefix of each stream and the difference is the residual pending in the
  buffer. The residual of the direction that has received no more bytes than
  the other is below the threshold; the residual of the faster direction need
  not be. The number of frames sent is the number of whole thresholds in the
  shorter stream.
\<close>

theorem order_preservation:
  assumes "sd \<noteq> []" and "dg_live e 0" and "decodable e appends"
    and "s = websocket_endpoint e (start_event sd # map (\<lambda>(t, p). media_event t p) appends)"
  shows "sent_channel0 s @ in_buffer s = stream e ''inbound'' appends
       \<and> sent_channel1 s @ out_buffer s = stream e ''outbound'' appends
       \<and> (length (stream e ''inbound'' appends) \<le> length (stream e ''outbound'' appends)
            \<longrightarrow> length (in_buffer s) < buffer_size)
       \<and> (length (stream e ''outbound'' appends) \<le> length (stream e ''inbound'' appends)
            \<longrightarrow> length (out_buffer s) < buffer_size)
       \<and> length (dg_sent s)
           = min (length (stream e ''inbound'' appends)) (length (stream e ''outbound'' appends))
               div buffer_size
       \<and> \<not> ws_closed s"
proof -
  let ?s0 = "initial\<lparr>logger := [Error_text ''Invalid JSON received.'', Info_session_start (JStr sd)],
                    dg_attempts := Suc 0, dg_opened := [0], deepgram_socket := Some 0\<rparr>"
  have live: "deepgram_socket ?s0 = Some 0" by simp
  have base: "sent_channel0 ?s0 = []" "sent_channel1 ?s0 = []" "in_buffer ?s0 = []"
    "out_buffer ?s0 = []" "counted ?s0" "\<not> ws_closed ?s0"
    "length (in_buffer ?s0) < buffer_size"
    by (simp_all add: initial_def sent_channel0_def sent_channel1_def counted_def buffer_size_def)
  from media_run [OF assms(3) live]
  obtain s' where run: "event_loop e (map (\<lambda>(t, p). media_event t p) appends) ?s0 = (Ok Continue, s')"
    and in': "sent_channel0 s' @ in_buffer s' = stream e ''inbound'' appends"
    and out': "sent_channel1 s' @ out_buffer s' = stream e ''outbound'' appends"
    and res': "length (in_buffer s') < buffer_size \<or> length (out_buffer s') < buffer_size"
    and cnt': "counted s'"
    and open': "\<not> ws_closed s'"
    using base by auto
  have s: "s = s'"
    unfolding assms(4) websocket_endpoint_def
    by (simp add: started [OF assms(1,2)] run)
  have len: "length (stream e ''inbound'' appends) = length (dg_sent s') * buffer_size + length (in_buffer s')"
    "length (stream e ''outbound'' appends) = length (dg_sent s') * buffer_size + length (out_buffer s')"
    using cnt' in' [symmetric] out' [symmetric] by (simp_all add: counted_def)
  then have cnt: "min (length (stream e ''inbound'' appends)) (length (stream e ''outbound'' appends))
               div buffer_size = length (dg_sent s')"
    using count_frames [OF res'] by simp
  have slow_in: "length (in_buffer s') < buffer_size"
    if "length (stream e ''inbound'' appends) \<le> length (stream e ''outbound'' appends)"
    using that res' unfolding len by linarith
  have slow_out: "length (out_buffer s') < buffer_size"
    if "length (stream e ''outbound'' appends) \<le> length (stream e ''inbound'' appends)"
    using that res' unfolding len by linarith
  from in' out' slow_in slow_out cnt open' show ?thesis unfolding s by simp
qed

theorem order_preservation_witness:
  "sent_channel0 (websocket_endpoint env_ok
      [start_event ''CA1'', media_event ''inbound'' (concat (replicate 1067 ''AAAA'')),
       media_event ''outbound'' (concat (replicate 1067 ''AAAA''))])
   @ in_buffer (websocket_endpoint env_ok
      [start_event ''CA1'', media_event ''inbound'' (concat (replicate 1067 ''AAAA'')),
       media_event ''outbound'' (concat (replicate 1067 ''AAAA''))])
   = replicate 3201 0
   \<and> length (dg_sent (websocket_endpoint env_ok
      [start_event ''CA1'', media_event ''inbound'' (concat (replicate 1067 ''AAAA'')),
       media_event ''outbound'' (concat (replicate 1067 ''AAAA''))])) = 1"
  using order_preservation [of "''CA1''" env_ok
      "[(''inbound'', concat (replicate 1067 ''AAAA'')),
        (''outbound'', concat (replicate 1067 ''AAAA''))]"
      "websocket_endpoint env_ok
        [start_event ''CA1'', media_event ''inbound'' (concat (replicate 1067 ''AAAA'')),
         media_event ''outbound'' (concat (replicate 1067 ''AAAA''))]"]
  by (simp add: env_ok_def decodable_def decoded_def stream_def b64_canonical_zeros buffer_size_def)

text \<open>
  C3 as stated fails: 6402 inbound bytes and no outbound byte leave nothing
  sent, so the difference between the inbound stream and the channel-0 bytes
  sent is 6402 bytes, which is not below the threshold.
\<close>

theorem residual_counterexample:
  "\<not> length (stream env_ok ''inbound''
           [(''inbound'', concat (replicate 1067 ''AAAA'')),
            (''inbound'', concat (replicate 1067 ''AAAA''))])
       - length (sent_channel0 (websocket_endpoint env_ok
           [start_event ''CA1'', media_event ''inbound'' (concat (replicate 1067 ''AAAA'')),
            media_event ''inbound'' (concat (replicate 1067 ''AAAA''))]))
       < buffer_size"
proof -
  let ?P = "concat (replicate 1067 ''AAAA'')"
  let ?s0 = "initial\<lparr>logger := [Error_text ''Invalid JSON received.'',
                                   Info_session_start (JStr ''CA1'')],
                    dg_attempts := Suc 0, dg_opened := [0], deepgram_socket := Some 0\<rparr>"
  let ?s1 = "initial\<lparr>dg_attempts := Suc 0, dg_opened := [0], deepgram_socket := Some 0,
                    logger := [Error_text ''Invalid JSON received.'',
                               Info_session_start (JStr ''CA1''),
                               Error_text ''Invalid JSON received.''],
                    in_buffer := replicate 3201 0\<rparr>"
  let ?s2 = "initial\<lparr>dg_attempts := Suc 0, dg_opened := [0], deepgram_socket := Some 0,
                    logger := [Error_text ''Invalid JSON received.'',
                               Info_session_start (JStr ''CA1''),
                               Error_text ''Invalid JSON received.'',
                               Error_text ''Invalid JSON received.''],
                    in_buffer := replicate 3201 0 @ replicate 3201 0\<rparr>"
  have dec: "b64decode env_ok ?P = Ok (replicate 3201 0)"
    by (simp add: env_ok_def b64_canonical_zeros)
  have st: "loop_body env_ok (start_event ''CA1'') initial = (Ok Continue, ?s0)"
    by (simp add: started env_ok_def)
  have m1: "loop_body env_ok (media_event ''inbound'' ?P) ?s0 = (Ok Continue, ?s1)"
    by (simp add: loop_body_media [OF dec] mix_loop_idle buffer_size_def initial_def)
  have m2: "loop_body env_ok (media_event ''inbound'' ?P) ?s1 = (Ok Continue, ?s2)"
    by (simp add: loop_body_media [OF dec] mix_loop_idle buffer_size_def initial_def)
  have "event_loop env_ok
          [start_event ''CA1'', media_event ''inbound'' ?P, media_event ''inbound'' ?P] initial
        = (Ok Continue, ?s2)"
    by (simp add: st m1 m2)
  then have "sent_channel0 (websocket_endpoint env_ok
          [start_event ''CA1'', media_event ''inbound'' ?P, media_event ''inbound'' ?P]) = []"
    by (simp add: websocket_endpoint_def sent_channel0_def initial_def)
  then show ?thesis
    by (simp add: stream_def decoded_def dec buffer_size_def)
qed

lemma stop_ends_session:
  assumes "event_loop e fs initial = (Ok Continue, s)"
  shows "websocket_endpoint e (fs @ stop_event # rest) =
           s\<lparr>logger := logger s @ [Error_text ''Invalid JSON received.''],
              dg_sent := dg_sent s @ (case deepgram_socket s of None \<Rightarrow> [] | Some k \<Rightarrow> [(k, [])]),
              ws_closed := True\<rparr>"
  by (simp add: websocket_endpoint_def event_loop_append assms loop_body_stop)

text \<open>
  C7. When a session that is waiting for its next frame receives a stop event,
  the bytes left in the two buffers are neither mixed nor sent: the only send is
  the empty terminator, the bytes sent on both channels are what they were, the
  buffers keep their residual, the websocket is closed and no later frame is
  processed. In particular a start, 1000 inbound bytes and a stop give no mixed
  frame and no audio send.
\<close>

theorem residual_discard:
  "(event_loop e fs initial = (Ok Continue, s) \<longrightarrow>
      audio_sends (websocket_endpoint e (fs @ stop_event # rest)) = audio_sends s
    \<and> sent_channel0 (websocket_endpoint e (fs @ stop_event # rest)) = sent_channel0 s
    \<and> sent_channel1 (websocket_endpoint e (fs @ stop_event # rest)) = sent_channel1 s
    \<and> in_buffer (websocket_endpoint e (fs @ stop_event # rest)) = in_buffer s
    \<and> out_buffer (websocket_endpoint e (fs @ stop_event # rest)) = out_buffer s
    \<and> ws_closed (websocket_endpoint e (fs @ stop_event # rest)))
   \<and> (sd \<noteq> [] \<and> dg_live e 0 \<and> b64decode e p = Ok bs \<and> length bs = 1000 \<longrightarrow>
      audio_sends (websocket_endpoint e [start_event sd, media_event ''inbound'' p, stop_event]) = []
    \<and> dg_sent (websocket_endpoint e [start_event sd, media_event ''inbound'' p, stop_event]) = [(0, [])]
    \<and> in_buffer (websocket_endpoint e [start_event sd, media_event ''inbound'' p, stop_event]) = bs
    \<and> ws_closed (websocket_endpoint e [start_event sd, media_event ''inbound'' p, stop_event]))"
proof (intro conjI impI)
  assume run: "event_loop e fs initial = (Ok Continue, s)"
  note fin = stop_ends_session [OF run, of rest]
  show "audio_sends (websocket_endpoint e (fs @ stop_event # rest)) = audio_sends s"
    unfolding fin by (simp add: audio_sends_def split: option.splits)
  show "sent_channel0 (websocket_endpoint e (fs @ stop_event # rest)) = sent_channel0 s"
    unfolding fin by (simp add: sent_channel0_def split: option.splits)
  show "sent_channel1 (websocket_endpoint e (fs @ stop_event # rest)) = sent_channel1 s"
    unfolding fin by (simp add: sent_channel1_def split: option.splits)
  show "in_buffer (websocket_endpoint e (fs @ stop_event # rest)) = in_buffer s"
    unfolding fin by simp
  show "out_buffer (websocket_endpoint e (fs @ stop_event # rest)) = out_buffer s"
    unfolding fin by simp
  show "ws_closed (websocket_endpoint e (fs @ stop_event # rest))"
    unfolding fin by simp
next
  assume h: "sd \<noteq> [] \<and> dg_live e 0 \<and> b64decode e p = Ok bs \<and> length bs = 1000"
  let ?s0 = "initial\<lparr>logger := [Error_text ''Invalid JSON received.'', Info_session_start (JStr sd)],
                    dg_attempts := Suc 0, dg_opened := [0], deepgram_socket := Some 0\<rparr>"
  let ?s1 = "?s0\<lparr>logger := logger ?s0 @ [Error_text ''Invalid JSON received.''],
                in_buffer := bs\<rparr>"
  have st: "loop_body e (start_event sd) initial = (Ok Continue, ?s0)"
    using h by (simp add: started)
  have "loop_body e (media_event ''inbound'' p) ?s0 = mix_loop ?s1"
    using h by (simp add: loop_body_media initial_def)
  also have "\<dots> = (Ok Continue, ?s1)"
    using h by (intro mix_loop_idle) (simp add: buffer_size_def)
  finally have md: "loop_body e (media_event ''inbound'' p) ?s0 = (Ok Continue, ?s1)" .
  have run: "event_loop e [start_event sd, media_event ''inbound'' p] initial = (Ok Continue, ?s1)"
    by (simp add: st md)
  have fin: "websocket_endpoint e [start_event sd, media_event ''inbound'' p, stop_event]
      = ?s1\<lparr>logger := logger ?s1 @ [Error_text ''Invalid JSON received.''],
            dg_sent := [(0, [])], ws_closed := True\<rparr>"
    using stop_ends_session [OF run, of "[]"] by (simp add: initial_def)
  show "audio_sends (websocket_endpoint e [start_event sd, media_event ''inbound'' p, stop_event]) = []"
    unfolding fin by (simp add: audio_sends_def)
  show "dg_sent (websocket_endpoint e [start_event sd, media_event ''inbound'' p, stop_event]) = [(0, [])]"
    unfolding fin by simp
  show "in_buffer (websocket_endpoint e [start_event sd, media_event ''inbound'' p, stop_event]) = bs"
    unfolding fin by simp
  show "ws_closed (websocket_endpoint e [start_event sd, media_event ''inbound'' p, stop_event])"
    unfolding fin by simp
qed

lemma b64_1000: "b64decode env_ok (concat (replicate 333 ''AAAA'') @ ''AA=='') = Ok (replicate 1000 0)"
  by (simp add: env_ok_def b64_canonical_zeros1)

theorem residual_discard_witness:
  "event_loop env_ok [start_event ''CA1'', media_event ''inbound'' ''AQID''] initial
     = (Ok Continue,
        initial\<lparr>logger := [Error_text ''Invalid JSON received.'', Info_session_start (JStr ''CA1''),
                            Error_text ''Invalid JSON received.''],
                dg_attempts := Suc 0, dg_opened := [0], deepgram_socket := Some 0,
                in_buffer := [1, 2, 3]\<rparr>)
   \<and> audio_sends (websocket_endpoint env_ok
         ([start_event ''CA1'', media_event ''inbound'' ''AQID''] @ stop_event # [])) = []
   \<and> in_buffer (websocket_endpoint env_ok
         ([start_event ''CA1'', media_event ''inbound'' ''AQID''] @ stop_event # [])) = [1, 2, 3]
   \<and> b64decode env_ok (concat (replicate 333 ''AAAA'') @ ''AA=='') = Ok (replicate 1000 0)
   \<and> audio_sends (websocket_endpoint env_ok
         [start_event ''CA1'', media_event ''inbound'' (concat (replicate 333 ''AAAA'') @ ''AA==''),
          stop_event]) = []
   \<and> dg_sent (websocket_endpoint env_ok
         [start_event ''CA1'', media_event ''inbound'' (concat (replicate 333 ''AAAA'') @ ''AA==''),
          stop_event]) = [(0, [])]"
proof -
  have dl: "dg_live env_ok 0" by (simp add: env_ok_def)
  have dec: "b64decode env_ok ''AQID'' = Ok [1, 2, 3]"
    by (simp add: env_ok_def b64_quad_def b64_digit_def)
  have run: "event_loop env_ok [start_event ''CA1'', media_event ''inbound'' ''AQID''] initial
     = (Ok Continue,
        initial\<lparr>logger := [Error_text ''Invalid JSON received.'', Info_session_start (JStr ''CA1''),
                            Error_text ''Invalid JSON received.''],
                dg_attempts := Suc 0, dg_opened := [0], deepgram_socket := Some 0,
                in_buffer := [1, 2, 3]\<rparr>)"
  proof -
    let ?s0 = "initial\<lparr>logger := [Error_text ''Invalid JSON received.'',
                                     Info_session_start (JStr ''CA1'')],
                      dg_attempts := Suc 0, dg_opened := [0], deepgram_socket := Some 0\<rparr>"
    have st: "loop_body env_ok (start_event ''CA1'') initial = (Ok Continue, ?s0)"
      by (simp add: started dl)
    have md: "loop_body env_ok (media_event ''inbound'' ''AQID'') ?s0
        = (Ok Continue,
           initial\<lparr>logger := [Error_text ''Invalid JSON received.'', Info_session_start (JStr ''CA1''),
                            Error_text ''Invalid JSON received.''],
                dg_attempts := Suc 0, dg_opened := [0], deepgram_socket := Some 0,
                in_buffer := [1, 2, 3]\<rparr>)"
      by (simp add: loop_body_media [OF dec] mix_loop_idle buffer_size_def initial_def)
    show ?thesis by (simp add: st md)
  qed
  show ?thesis
    using residual_discard [of env_ok "[start_event ''CA1'', media_event ''inbound'' ''AQID'']"
        "initial\<lparr>logger := [Error_text ''Invalid JSON received.'', Info_session_start (JStr ''CA1''),
                            Error_text ''Invalid JSON received.''],
                dg_attempts := Suc 0, dg_opened := [0], deepgram_socket := Some 0,
                in_buffer := [1, 2, 3]\<rparr>" "[]" "''CA1''"
        "concat (replicate 333 ''AAAA'') @ ''AA==''" "replicate 1000 0"]
      run dl b64_1000
    by (simp add: audio_sends_def initial_def)
qed

section \<open>Sessions that end in an exception\<close>

lemma event_loop_malformed: "event_loop e (Malformed # rest) s = (Raise JSONDecodeError, s)"
  by (simp add: loop_body_malformed)

lemma malformed_ends_session:
  assumes "event_loop e fs initial = (Ok Continue, s)"
  shows "websocket_endpoint e (fs @ Malformed # rest) =
           s\<lparr>logger := logger s @ [Error_exc JSONDecodeError], ws_closed := True\<rparr>"
  by (simp add: websocket_endpoint_def event_loop_append assms loop_body_malformed)

lemma b64_AQID: "b64decode env_ok ''AQID'' = Ok [1, 2, 3]"
  by (simp add: env_ok_def b64_quad_def b64_digit_def)

lemma b64_3201: "b64decode env_ok (concat (replicate 1067 ''AAAA'')) = Ok (replicate 3201 0)"
  by (simp add: env_ok_def b64_canonical_zeros)

text \<open>
  C4 fails on the code. A start event, a media event, a message that is not
  JSON and a second media event: \<^verbatim>\<open>json.loads\<close> raises, the exception reaches
  \<^verbatim>\<open>except Exception\<close>, the websocket is closed and the second media event is
  never processed (the outbound buffer stays empty).
\<close>

theorem malformed_frame_tears_down:
  "websocket_endpoint env_ok
     [start_event ''CA1'', media_event ''inbound'' ''AQID'', Malformed,
      media_event ''outbound'' ''AQID''] =
   initial\<lparr>deepgram_socket := Some 0, in_buffer := [1, 2, 3], out_buffer := [],
           logger := [Error_text ''Invalid JSON received.'', Info_session_start (JStr ''CA1''),
                      Error_text ''Invalid JSON received.'', Error_exc JSONDecodeError],
           dg_attempts := 1, dg_opened := [0], dg_sent := [], ws_closed := True\<rparr>"
proof -
  let ?s0 = "initial\<lparr>logger := [Error_text ''Invalid JSON received.'',
                                   Info_session_start (JStr ''CA1'')],
                    dg_attempts := Suc 0, dg_opened := [0], deepgram_socket := Some 0\<rparr>"
  let ?s1 = "?s0\<lparr>logger := logger ?s0 @ [Error_text ''Invalid JSON received.''],
                in_buffer := [1, 2, 3]\<rparr>"
  have st: "loop_body env_ok (start_event ''CA1'') initial = (Ok Continue, ?s0)"
    by (simp add: started env_ok_def)
  have md: "loop_body env_ok (media_event ''inbound'' ''AQID'') ?s0 = (Ok Continue, ?s1)"
    by (simp add: loop_body_media [OF b64_AQID] mix_loop_idle buffer_size_def initial_def)
  have "event_loop env_ok
     [start_event ''CA1'', media_event ''inbound'' ''AQID'', Malformed,
      media_event ''outbound'' ''AQID''] initial = (Raise JSONDecodeError, ?s1)"
    by (simp add: st md loop_body_malformed)
  then show ?thesis
    by (simp add: websocket_endpoint_def initial_def)
qed

text \<open>
  C5 fails on the code. Two media events before any start event, each with 3201
  bytes: no transcription connection is created, but when both buffers have
  reached the threshold the mixing loop calls \<^verbatim>\<open>send\<close> on \<^verbatim>\<open>None\<close>; the
  AttributeError ends the session.
\<close>

theorem media_before_start_raises:
  "websocket_endpoint env_ok
     [media_event ''inbound'' (concat (replicate 1067 ''AAAA'')),
      media_event ''outbound'' (concat (replicate 1067 ''AAAA''))] =
   initial\<lparr>in_buffer := replicate 3201 0, out_buffer := replicate 3201 0,
           logger := [Error_text ''Invalid JSON received.'', Error_text ''Invalid JSON received.'',
                      Error_exc AttributeError],
           ws_closed := True\<rparr>"
proof -
  let ?P = "concat (replicate 1067 ''AAAA'')"
  let ?s1 = "initial\<lparr>logger := [Error_text ''Invalid JSON received.''],
                    in_buffer := replicate 3201 0\<rparr>"
  let ?s2 = "initial\<lparr>logger := [Error_text ''Invalid JSON received.'',
                               Error_text ''Invalid JSON received.''],
                    in_buffer := replicate 3201 0, out_buffer := replicate 3201 0\<rparr>"
  have m1: "loop_body env_ok (media_event ''inbound'' ?P) initial = (Ok Continue, ?s1)"
    by (simp add: loop_body_media [OF b64_3201] mix_loop_idle buffer_size_def initial_def)
  have "loop_body env_ok (media_event ''outbound'' ?P) ?s1 = mix_loop ?s2"
    by (simp add: loop_body_media [OF b64_3201] initial_def)
  also have "\<dots> = (Raise AttributeError, ?s2)"
    by (subst mix_loop_absent) (simp_all add: initial_def buffer_size_def)
  finally have m2: "loop_body env_ok (media_event ''outbound'' ?P) ?s1 = (Raise AttributeError, ?s2)" .
  have "event_loop env_ok [media_event ''inbound'' ?P, media_event ''outbound'' ?P] initial
          = (Raise AttributeError, ?s2)"
    by (simp add: m1 m2)
  then show ?thesis
    by (simp add: websocket_endpoint_def initial_def)
qed

lemma loop_body_media_absent:
  assumes "b64decode e p = Ok bs" and "deepgram_socket s = None"
    and "inb = in_buffer s @ (if t = ''inbound'' then bs else [])"
    and "outb = out_buffer s @ (if t = ''outbound'' then bs else [])"
    and "buffer_size \<le> length inb" and "buffer_size \<le> length outb"
  shows "loop_body e (media_event t p) s =
           (Raise AttributeError,
            s\<lparr>logger := logger s @ [Error_text ''Invalid JSON received.''],
               in_buffer := inb, out_buffer := outb\<rparr>)"
  unfolding loop_body_media [OF assms(1)] using assms(2-6)
  by (subst mix_loop_absent) simp_all

text \<open>
  C1 fails on the code. Two media events before any start event, each with 3201
  bytes: both buffers hold at least the threshold of 3200 bytes, but no mixed
  frame is sent and no byte is removed from either buffer, because the mixing
  loop calls \<^verbatim>\<open>send\<close> on \<^verbatim>\<open>None\<close> and the AttributeError ends the loop.
\<close>

theorem threshold_reached_without_socket:
  "event_loop env_ok
     [media_event ''inbound'' (concat (replicate 1067 ''AAAA'')),
      media_event ''outbound'' (concat (replicate 1067 ''AAAA''))] initial =
   (Raise AttributeError,
    initial\<lparr>in_buffer := replicate 3201 0, out_buffer := replicate 3201 0,
            logger := [Error_text ''Invalid JSON received.'', Error_text ''Invalid JSON received.''],
            dg_sent := []\<rparr>)
   \<and> buffer_size = 3200"
proof -
  let ?P = "concat (replicate 1067 ''AAAA'')"
  let ?s1 = "initial\<lparr>logger := [Error_text ''Invalid JSON received.''],
                    in_buffer := replicate 3201 0\<rparr>"
  have m1: "loop_body env_ok (media_event ''inbound'' ?P) initial = (Ok Continue, ?s1)"
    by (simp add: loop_body_media [OF b64_3201] mix_loop_idle buffer_size_def initial_def)
  have m2: "loop_body env_ok (media_event ''outbound'' ?P) ?s1 =
      (Raise AttributeError,
       ?s1\<lparr>logger := logger ?s1 @ [Error_text ''Invalid JSON received.''],
           in_buffer := replicate 3201 0, out_buffer := replicate 3201 0\<rparr>)"
    by (rule loop_body_media_absent [OF b64_3201]) (simp_all add: initial_def buffer_size_def)
  show ?thesis
    by (simp add: m1 m2) (simp add: initial_def buffer_size_def)
qed

lemma start_failure_ends_session:
  assumes "event_loop e fs initial = (Ok Continue, s)" and "sd \<noteq> []"
    and "\<not> dg_live e (dg_attempts s)"
  shows "websocket_endpoint e (fs @ start_event sd # rest) =
           s\<lparr>logger := logger s @ [Error_text ''Invalid JSON received.'',
                                     Error_exc ConnectionFailed],
              dg_attempts := Suc (dg_attempts s), ws_closed := True\<rparr>"
  by (simp add: websocket_endpoint_def event_loop_append assms loop_body_start_fails)

text \<open>
  C6, amended. If opening the transcription connection on a start event fails,
  the exception is logged and the session ends: the websocket is closed and no
  later frame is processed, so the buffers stay as they were, nothing is sent
  to transcription and no connection is closed.
\<close>

theorem connection_failure_ends_session:
  assumes "event_loop e fs initial = (Ok Continue, s)" and "sd \<noteq> []"
    and "\<not> dg_live e (dg_attempts s)"
  shows "websocket_endpoint e (fs @ start_event sd # rest) =
           s\<lparr>logger := logger s @ [Error_text ''Invalid JSON received.'',
                                     Error_exc ConnectionFailed],
              dg_attempts := Suc (dg_attempts s), ws_closed := True\<rparr>
       \<and> in_buffer (websocket_endpoint e (fs @ start_event sd # rest)) = in_buffer s
       \<and> out_buffer (websocket_endpoint e (fs @ start_event sd # rest)) = out_buffer s
       \<and> dg_sent (websocket_endpoint e (fs @ start_event sd # rest)) = dg_sent s
       \<and> dg_opened (websocket_endpoint e (fs @ start_event sd # rest)) = dg_opened s
       \<and> ws_closed (websocket_endpoint e (fs @ start_event sd # rest))"
  unfolding start_failure_ends_session [OF assms] by simp

theorem connection_failure_ends_session_witness:
  "websocket_endpoint env_down
     ([] @ start_event ''CA1'' # [media_event ''inbound'' ''AQID'', stop_event]) =
   initial\<lparr>logger := [Error_text ''Invalid JSON received.'', Error_exc ConnectionFailed],
           dg_attempts := Suc 0, ws_closed := True\<rparr>"
  using connection_failure_ends_session [of env_down "[]" initial "''CA1''"
      "[media_event ''inbound'' ''AQID'', stop_event]"]
  by (simp add: env_down_def initial_def)

text \<open>
  C6 as stated fails: after a start event whose connection cannot be opened, a
  media event does not append to the buffer, and the session does not go on.
\<close>

theorem degraded_mode_counterexample:
  "\<not> (in_buffer (websocket_endpoint env_down
                    [start_event ''CA1'', media_event ''inbound'' ''AQID'']) = [1, 2, 3]
       \<and> \<not> ws_closed (websocket_endpoint env_down
                    [start_event ''CA1'', media_event ''inbound'' ''AQID'']))"
proof -
  have "websocket_endpoint env_down ([] @ start_event ''CA1'' # [media_event ''inbound'' ''AQID''])
          = initial\<lparr>logger := logger initial @ [Error_text ''Invalid JSON received.'',
                                                  Error_exc ConnectionFailed],
                    dg_attempts := Suc (dg_attempts initial), ws_closed := True\<rparr>"
    by (rule start_failure_ends_session) (simp_all add: env_down_def initial_def)
  then show ?thesis by simp
qed

section \<open>The transcript handler on result payloads\<close>

text \<open>
  C8 fails on the code. A result payload whose list of alternatives is empty:
  \<^verbatim>\<open>[0]\<close> raises IndexError, the handler fails instead of logging nothing.
\<close>

theorem empty_alternatives_raise:
  "get_transcript \<lparr>sid = JStr ''CA1''\<rparr>
     (JObj [''channel'' \<mapsto> JObj [''alternatives'' \<mapsto> JArr []]]) = Raise IndexError"
  by (simp add: get_transcript_def)

text \<open>
  The rest of C8 holds: the first alternative's transcript is logged with the
  call identifier when it is non-empty, and a payload without the channel or
  the alternatives field logs nothing.
\<close>

lemma get_transcript_first_alternative:
  assumes "d ''channel'' = Some (JObj c)" and "c ''alternatives'' = Some (JArr (JObj a # more_alts))"
  shows "get_transcript call (JObj d) =
           Ok (case a ''transcript'' of
                 None \<Rightarrow> []
               | Some t \<Rightarrow> if truthy t then [Info_transcript (sid call) t] else [])"
  using assms by (simp add: get_transcript_def split: option.splits)

lemma get_transcript_missing_channel:
  "d ''channel'' = None \<Longrightarrow> get_transcript call (JObj d) = Ok []"
  by (simp add: get_transcript_def)

lemma get_transcript_missing_alternatives:
  "d ''channel'' = Some (JObj c) \<Longrightarrow> c ''alternatives'' = None \<Longrightarrow>
     get_transcript call (JObj d) = Ok []"
  by (simp add: get_transcript_def)

section \<open>The transcription connections of a session\<close>

lemma handle_inv_fin: "handle_inv s \<Longrightarrow> handle_fin s"
  by (auto simp: handle_inv_def handle_fin_def list_all_iff)

lemma frame_at_nonempty:
  assumes "buffer_size \<le> length inb" and "buffer_size \<le> length outb"
  shows "frame_at inb outb 0 \<noteq> []"
proof -
  have "length (frame_at inb outb 0) = 2 * buffer_size"
    using assms by (intro frame_channels) simp_all
  then show ?thesis using buffer_size_pos by auto
qed

lemma mix_loop_handles:
  "handle_inv s \<Longrightarrow>
     handle_inv (snd (mix_loop s)) \<and> dg_opened (snd (mix_loop s)) = dg_opened s
     \<and> fst (mix_loop s) \<noteq> Ok Break"
proof (induction s rule: mix_loop.induct)
  case (1 s)
  show ?case
  proof (cases "buffer_size \<le> length (in_buffer s) \<and> buffer_size \<le> length (out_buffer s)")
    case False
    then show ?thesis using "1.prems" by (simp add: mix_loop_idle)
  next
    case True
    show ?thesis
    proof (cases "deepgram_socket s")
      case None
      then show ?thesis using "1.prems" True by (simp add: mix_loop_absent)
    next
      case (Some k)
      let ?s1 = "s\<lparr>dg_sent := dg_sent s @ [(k, frame_at (in_buffer s) (out_buffer s) 0)],
                    in_buffer := drop buffer_size (in_buffer s),
                    out_buffer := drop buffer_size (out_buffer s)\<rparr>"
      have step: "mix_loop s = mix_loop ?s1"
        by (subst mix_loop.simps) (simp add: True Some mixed_slices)
      have inv1: "handle_inv ?s1"
        using "1.prems" frame_at_nonempty [of "in_buffer s" "out_buffer s"] True
        by (simp add: handle_inv_def latest_handle_def)
      from "1.IH" [OF True mixed_slices Some] True inv1
      have "handle_inv (snd (mix_loop ?s1)) \<and> dg_opened (snd (mix_loop ?s1)) = dg_opened ?s1
            \<and> fst (mix_loop ?s1) \<noteq> Ok Break"
        by simp
      then show ?thesis unfolding step by simp
    qed
  qed
qed

lemma on_start_handles:
  assumes "handle_inv s"
  shows "handle_inv (snd (on_start e d s)) \<and> fst (on_start e d s) \<noteq> Ok Break
       \<and> length (dg_opened (snd (on_start e d s))) \<le> Suc (length (dg_opened s))"
  using assms
  by (auto simp: on_start_def connect_to_deepgram_def handle_inv_def latest_handle_def
      list_all_iff split: result.splits)

lemma on_media_handles:
  assumes "handle_inv s"
  shows "handle_inv (snd (on_media e d s)) \<and> fst (on_media e d s) \<noteq> Ok Break
       \<and> dg_opened (snd (on_media e d s)) = dg_opened s"
  using assms
  by (auto simp: on_media_def Let_def handle_inv_def latest_handle_def split: result.splits)

lemma on_stop_handles:
  assumes "handle_inv s"
  shows "handle_fin (snd (on_stop s)) \<and> fst (on_stop s) = Ok Break
       \<and> dg_opened (snd (on_stop s)) = dg_opened s"
  using assms
  by (auto simp: on_stop_def handle_inv_def handle_fin_def latest_handle_def list_all_iff
      split: option.splits)


lemma after_dispatch_handles:
  assumes "fst p \<noteq> Ok Break" and "handle_inv (snd p)"
  shows "handle_inv (snd (case p of (Ok Continue, s2) \<Rightarrow> mix_loop s2
                           | (Ok Break, s2) \<Rightarrow> (Ok Break, s2)
                           | (Raise x, s2) \<Rightarrow> (Raise x, s2)))
       \<and> dg_opened (snd (case p of (Ok Continue, s2) \<Rightarrow> mix_loop s2
                           | (Ok Break, s2) \<Rightarrow> (Ok Break, s2)
                           | (Raise x, s2) \<Rightarrow> (Raise x, s2))) = dg_opened (snd p)"
  using assms mix_loop_handles [of "snd p"]
  by (auto split: prod.splits result.splits outcome.splits)

lemma after_dispatch_break:
  assumes "fst p = Ok Break"
  shows "(case p of (Ok Continue, s2) \<Rightarrow> mix_loop s2
                  | (Ok Break, s2) \<Rightarrow> (Ok Break, s2)
                  | (Raise x, s2) \<Rightarrow> (Raise x, s2)) = p"
  using assms by (auto split: prod.splits result.splits outcome.splits)

lemma event_is_start:
  "py_get data ''event'' JNull = Ok (JStr ''start'') \<Longrightarrow> is_start_event (Json data)"
  by (cases data) (auto simp: is_start_event_def split: option.splits)

lemma loop_body_handles:
  assumes "handle_inv s"
  shows "handle_fin (snd (loop_body e f s))
       \<and> (fst (loop_body e f s) = Ok Continue \<longrightarrow> handle_inv (snd (loop_body e f s)))
       \<and> length (dg_opened (snd (loop_body e f s)))
            \<le> length (dg_opened s) + (if is_start_event f then 1 else 0)"
proof (cases f)
  case Malformed
  then show ?thesis using assms by (simp add: loop_body_malformed handle_inv_fin)
next
  case (Json data)
  let ?s1 = "s\<lparr>logger := logger s @ [Error_text ''Invalid JSON received.'']\<rparr>"
  have inv1: "handle_inv ?s1" and op1: "dg_opened ?s1 = dg_opened s"
    using assms by (simp_all add: handle_inv_def latest_handle_def)
  show ?thesis
  proof (cases "py_get data ''event'' JNull")
    case (Raise x)
    then show ?thesis
      using inv1 by (simp add: Json loop_body_def handle_inv_fin)
  next
    case (Ok event)
    let ?p = "if event = JStr ''start'' then on_start e data ?s1
              else if event = JStr ''media'' then on_media e data ?s1
              else if event = JStr ''stop'' then on_stop ?s1
              else (Ok Continue, ?s1)"
    let ?q = "case ?p of (Ok Continue, s2) \<Rightarrow> mix_loop s2
                       | (Ok Break, s2) \<Rightarrow> (Ok Break, s2)
                       | (Raise x, s2) \<Rightarrow> (Raise x, s2)"
    have body: "loop_body e f s = ?q"
      by (simp add: Json loop_body_def Ok Let_def)
    have "handle_fin (snd ?q) \<and> (fst ?q = Ok Continue \<longrightarrow> handle_inv (snd ?q))
          \<and> length (dg_opened (snd ?q)) \<le> length (dg_opened s) + (if is_start_event f then 1 else 0)"
    proof (cases "event = JStr ''stop''")
      case True
      then have p: "?p = on_stop ?s1" by simp
      have br: "fst ?p = Ok Break" and fin: "handle_fin (snd ?p)"
        and op: "dg_opened (snd ?p) = dg_opened s"
        unfolding p using on_stop_handles [OF inv1] op1 by simp_all
      show ?thesis
        unfolding after_dispatch_break [OF br] using br fin op by simp
    next
      case False
      have nb: "fst ?p \<noteq> Ok Break" and inv: "handle_inv (snd ?p)"
        and op: "length (dg_opened (snd ?p)) \<le> length (dg_opened s) + (if is_start_event f then 1 else 0)"
        using False on_start_handles [OF inv1, of e data] on_media_handles [OF inv1, of e data]
          inv1 op1 event_is_start [of data] Ok Json
        by auto
      from after_dispatch_handles [OF nb inv] op show ?thesis
        by (simp add: handle_inv_fin)
    qed
    then show ?thesis unfolding body .
  qed
qed

lemma event_loop_handles:
  assumes "handle_inv s"
  shows "handle_fin (snd (event_loop e fs s))
       \<and> length (dg_opened (snd (event_loop e fs s)))
            \<le> length (dg_opened s) + length (filter is_start_event fs)"
  using assms
proof (induction fs arbitrary: s)
  case Nil
  then show ?case by (simp add: handle_inv_fin)
next
  case (Cons f fs)
  obtain r s1 where b: "loop_body e f s = (r, s1)" by (cases "loop_body e f s")
  from loop_body_handles [OF Cons.prems, of e f] b
  have fin1: "handle_fin s1" and inv1: "r = Ok Continue \<longrightarrow> handle_inv s1"
    and op1: "length (dg_opened s1) \<le> length (dg_opened s) + (if is_start_event f then 1 else 0)"
    by simp_all
  show ?case
  proof (cases "r = Ok Continue")
    case True
    with inv1 have "handle_inv s1" by simp
    from Cons.IH [OF this] op1 show ?thesis
      by (auto simp: b True split: if_splits)
  next
    case False
    then have "event_loop e (f # fs) s = (r, s1)"
      by (cases r; cases "case r of Ok c \<Rightarrow> c | _ \<Rightarrow> Break")
         (auto simp: b split: outcome.splits)
    then show ?thesis using fin1 op1 by (auto split: if_splits)
  qed
qed


lemma handle_inv_initial: "handle_inv initial"
  by (simp add: handle_inv_def latest_handle_def initial_def)

lemma websocket_endpoint_handles:
  "handle_fin (websocket_endpoint e fs)
   \<and> length (dg_opened (websocket_endpoint e fs)) \<le> length (filter is_start_event fs)"
proof -
  obtain r s where run: "event_loop e fs initial = (r, s)" by (cases "event_loop e fs initial")
  from event_loop_handles [OF handle_inv_initial, of e fs] run
  have fin: "handle_fin s" and op: "length (dg_opened s) \<le> length (filter is_start_event fs)"
    by (simp_all add: initial_def)
  have "handle_fin (s\<lparr>ws_closed := True\<rparr>) = handle_fin s"
    "handle_fin (s\<lparr>logger := logger s @ [Error_exc x], ws_closed := True\<rparr>) = handle_fin s" for x
    by (simp_all add: handle_fin_def latest_handle_def)
  with fin op show ?thesis
    by (auto simp: websocket_endpoint_def run split: result.splits outcome.splits)
qed

lemma last_not_in_butlast: "distinct xs \<Longrightarrow> k \<in> set (butlast xs) \<Longrightarrow> k \<noteq> last xs"
proof
  assume d: "distinct xs" and k: "k \<in> set (butlast xs)" and e: "k = last xs"
  from k have "xs \<noteq> []" by auto
  then have "xs = butlast xs @ [last xs]" by simp
  with d have "distinct (butlast xs @ [last xs])" by simp
  then have "last xs \<notin> set (butlast xs)" by simp
  with k e show False by simp
qed

text \<open>
  Whatever frames a session has received, the handle is the connection opened
  last, a terminator was only ever sent on the handle, every connection but the
  newest is live, and no more connections were opened than start events were
  received.
\<close>

lemma handle_is_newest:
  assumes "s = websocket_endpoint e fs"
  shows "deepgram_socket s = (if dg_opened s = [] then None else Some (last (dg_opened s)))
       \<and> (\<forall>k. (k, []) \<in> set (dg_sent s) \<longrightarrow> deepgram_socket s = Some k)
       \<and> set (butlast (dg_opened s)) \<subseteq> set (live_connections s)
       \<and> length (dg_opened s) \<le> length (filter is_start_event fs)
       \<and> (length (filter is_start_event fs) \<le> 1 \<longrightarrow> length (live_connections s) \<le> 1)"
proof -
  from websocket_endpoint_handles [of e fs] assms
  have fin: "handle_fin s" and op: "length (dg_opened s) \<le> length (filter is_start_event fs)"
    by simp_all
  from fin have sock: "deepgram_socket s = (if dg_opened s = [] then None else Some (last (dg_opened s)))"
    and dist: "distinct (dg_opened s)"
    by (simp_all add: handle_fin_def latest_handle_def)
  from fin have closed: "\<forall>k. (k, []) \<in> set (dg_sent s) \<longrightarrow> deepgram_socket s = Some k"
    unfolding handle_fin_def list_all_iff by blast
  have old: "set (butlast (dg_opened s)) \<subseteq> set (live_connections s)"
  proof
    fix k assume k: "k \<in> set (butlast (dg_opened s))"
    then have ne: "k \<noteq> last (dg_opened s)" using dist by (intro last_not_in_butlast)
    from k have mem: "k \<in> set (dg_opened s)" by (rule in_set_butlastD)
    then have "dg_opened s \<noteq> []" by auto
    with sock ne have "deepgram_socket s \<noteq> Some k" by simp
    with closed have "(k, []) \<notin> set (dg_sent s)" by blast
    with mem show "k \<in> set (live_connections s)" by (simp add: live_connections_def)
  qed
  have "length (live_connections s) \<le> length (dg_opened s)"
    by (simp add: live_connections_def)
  with op have one: "length (filter is_start_event fs) \<le> 1 \<longrightarrow> length (live_connections s) \<le> 1"
    by simp
  from sock closed old op one show ?thesis by blast
qed

lemma two_starts:
  "websocket_endpoint env_ok [start_event ''CA1'', start_event ''CA2''] =
     initial\<lparr>deepgram_socket := Some 1,
             logger := [Error_text ''Invalid JSON received.'', Info_session_start (JStr ''CA1''),
                        Error_text ''Invalid JSON received.'', Info_session_start (JStr ''CA2'')],
             dg_attempts := 2, dg_opened := [0, 1]\<rparr>"
proof -
  let ?s0 = "initial\<lparr>logger := [Error_text ''Invalid JSON received.'',
                                   Info_session_start (JStr ''CA1'')],
                    dg_attempts := Suc 0, dg_opened := [0], deepgram_socket := Some 0\<rparr>"
  let ?s1 = "?s0\<lparr>logger := logger ?s0 @ [Error_text ''Invalid JSON received.'',
                                           Info_session_start (JStr ''CA2'')],
                dg_attempts := Suc (dg_attempts ?s0),
                dg_opened := dg_opened ?s0 @ [dg_attempts ?s0],
                deepgram_socket := Some (dg_attempts ?s0)\<rparr>"
  have st: "loop_body env_ok (start_event ''CA1'') initial = (Ok Continue, ?s0)"
    by (simp add: started env_ok_def)
  have "loop_body env_ok (start_event ''CA2'') ?s0 = mix_loop ?s1"
    by (rule loop_body_start) (simp_all add: env_ok_def)
  also have "\<dots> = (Ok Continue, ?s1)"
    by (rule mix_loop_idle) (simp add: initial_def buffer_size_def)
  finally have st2: "loop_body env_ok (start_event ''CA2'') ?s0 = (Ok Continue, ?s1)" .
  have "event_loop env_ok [start_event ''CA1'', start_event ''CA2''] initial = (Ok Continue, ?s1)"
    by (simp add: st st2)
  then show ?thesis
    by (simp add: websocket_endpoint_def initial_def)
qed

text \<open>
  C9 as stated fails: after two start events two transcription connections are
  live at once.
\<close>

theorem single_connection_counterexample:
  "\<not> length (live_connections
        (websocket_endpoint env_ok [start_event ''CA1'', start_event ''CA2''])) \<le> 1"
  by (simp add: two_starts live_connections_def initial_def)

lemma event_loop_running:
  assumes "handle_inv s" and "event_loop e fs s = (Ok Continue, s')"
  shows "handle_inv s'"
  using assms
proof (induction fs arbitrary: s)
  case Nil
  then show ?case by simp
next
  case (Cons f fs)
  obtain r s1 where b: "loop_body e f s = (r, s1)" by (cases "loop_body e f s")
  have r: "r = Ok Continue"
    using Cons.prems(2) b by (auto split: result.splits outcome.splits)
  from loop_body_handles [OF Cons.prems(1), of e f] b r have "handle_inv s1" by simp
  moreover have "event_loop e fs s1 = (Ok Continue, s')"
    using Cons.prems(2) b r by simp
  ultimately show ?case by (rule Cons.IH)
qed

lemma running_inv:
  "event_loop e fs initial = (Ok Continue, s) \<Longrightarrow> handle_inv s"
  using handle_inv_initial by (rule event_loop_running)

lemma live_while_running: "handle_inv s \<Longrightarrow> live_connections s = dg_opened s"
  by (auto simp: handle_inv_def live_connections_def list_all_iff filter_id_conv)

lemma frame_at_length:
  assumes "i < flushes inb outb"
  shows "length (frame_at inb outb i) = 2 * buffer_size"
proof -
  from assms have "Suc i * buffer_size \<le> flushes inb outb * buffer_size"
    by (intro mult_le_mono1) simp
  then have "Suc i * buffer_size \<le> length inb" "Suc i * buffer_size \<le> length outb"
    using flushes_le_in [of inb outb] flushes_le_out [of inb outb] by linarith+
  then show ?thesis by (rule frame_channels)
qed

lemma frames_not_terminators:
  "(k', []) \<notin> set (map (\<lambda>i. (k, frame_at inb outb i)) [0..<flushes inb outb])"
proof
  assume "(k', []) \<in> set (map (\<lambda>i. (k, frame_at inb outb i)) [0..<flushes inb outb])"
  then obtain i where "i < flushes inb outb" and "frame_at inb outb i = []" by auto
  with frame_at_length [of i inb outb] buffer_size_pos show False by simp
qed

lemma filter_not_last:
  assumes "distinct xs" and "xs \<noteq> []"
  shows "filter (\<lambda>k. k \<noteq> last xs) xs = butlast xs"
proof -
  from assms(2) obtain ys y where xs: "xs = ys @ [y]" by (cases xs rule: rev_cases) auto
  with assms(1) have "y \<notin> set ys" by simp
  then have "filter (\<lambda>k. k \<noteq> y) ys = ys" by (auto simp: filter_id_conv)
  then show ?thesis by (simp add: xs)
qed

lemma start_opens_connection:
  assumes run: "event_loop e fs initial = (Ok Continue, s)"
    and sd: "sd \<noteq> []" and ok: "dg_live e (dg_attempts s)"
  shows "dg_opened (websocket_endpoint e (fs @ [start_event sd])) = dg_opened s @ [dg_attempts s]"
    and "deepgram_socket (websocket_endpoint e (fs @ [start_event sd])) = Some (dg_attempts s)"
    and "live_connections (websocket_endpoint e (fs @ [start_event sd]))
           = live_connections s @ [dg_attempts s]"
    and "dg_attempts s \<notin> set (dg_opened s)"
proof -
  let ?a = "dg_attempts s"
  let ?s1 = "s\<lparr>logger := logger s @ [Error_text ''Invalid JSON received.'',
                                        Info_session_start (JStr sd)],
                dg_attempts := Suc ?a, dg_opened := dg_opened s @ [?a],
                deepgram_socket := Some ?a\<rparr>"
  let ?n = "flushes (in_buffer s) (out_buffer s)"
  let ?s2 = "?s1\<lparr>dg_sent := dg_sent s @ map (\<lambda>i. (?a, frame_at (in_buffer s) (out_buffer s) i)) [0..<?n],
                 in_buffer := drop (?n * buffer_size) (in_buffer s),
                 out_buffer := drop (?n * buffer_size) (out_buffer s)\<rparr>"
  have inv: "handle_inv s" using run by (rule running_inv)
  have "loop_body e (start_event sd) s = mix_loop ?s1"
    using sd ok by (rule loop_body_start)
  also have "\<dots> = (Ok Continue, ?s2)"
    by (subst mix_loop_live [where k = ?a]) simp_all
  finally have body: "loop_body e (start_event sd) s = (Ok Continue, ?s2)" .
  have fin: "websocket_endpoint e (fs @ [start_event sd]) = ?s2"
    by (simp add: websocket_endpoint_def event_loop_append run body)
  have fresh: "?a \<notin> set (dg_opened s)"
    using inv by (auto simp: handle_inv_def latest_handle_def list_all_iff)
  have noterm: "(k, []) \<notin> set (dg_sent s)" for k
    using inv by (auto simp: handle_inv_def list_all_iff)
  show "dg_opened (websocket_endpoint e (fs @ [start_event sd])) = dg_opened s @ [?a]"
    unfolding fin by simp
  show "deepgram_socket (websocket_endpoint e (fs @ [start_event sd])) = Some ?a"
    unfolding fin by simp
  show "live_connections (websocket_endpoint e (fs @ [start_event sd])) = live_connections s @ [?a]"
    unfolding fin live_while_running [OF inv]
    using noterm frames_not_terminators [of _ ?a "in_buffer s" "out_buffer s"]
    by (simp add: live_connections_def filter_id_conv)
  show "?a \<notin> set (dg_opened s)" by (rule fresh)
qed


lemma stop_closes_newest:
  assumes run: "event_loop e fs initial = (Ok Continue, s)"
  shows "dg_sent (websocket_endpoint e (fs @ stop_event # rest))
           = dg_sent s @ (if dg_opened s = [] then [] else [(last (dg_opened s), [])])"
    and "dg_opened (websocket_endpoint e (fs @ stop_event # rest)) = dg_opened s"
    and "live_connections (websocket_endpoint e (fs @ stop_event # rest)) = butlast (dg_opened s)"
proof -
  have inv: "handle_inv s" using run by (rule running_inv)
  then have sock: "deepgram_socket s = (if dg_opened s = [] then None else Some (last (dg_opened s)))"
    and dist: "distinct (dg_opened s)"
    by (simp_all add: handle_inv_def latest_handle_def)
  have noterm: "(k, []) \<notin> set (dg_sent s)" for k
    using inv by (auto simp: handle_inv_def list_all_iff)
  note fin = stop_ends_session [OF run, of rest]
  show sent: "dg_sent (websocket_endpoint e (fs @ stop_event # rest))
           = dg_sent s @ (if dg_opened s = [] then [] else [(last (dg_opened s), [])])"
    unfolding fin by (simp add: sock)
  show "dg_opened (websocket_endpoint e (fs @ stop_event # rest)) = dg_opened s"
    unfolding fin by simp
  show "live_connections (websocket_endpoint e (fs @ stop_event # rest)) = butlast (dg_opened s)"
  proof (cases "dg_opened s = []")
    case True
    then show ?thesis unfolding fin by (simp add: live_connections_def)
  next
    case False
    have "live_connections (websocket_endpoint e (fs @ stop_event # rest))
            = filter (\<lambda>k. k \<noteq> last (dg_opened s)) (dg_opened s)"
      unfolding fin using False noterm by (simp add: live_connections_def sock)
    then show ?thesis using filter_not_last [OF dist False] by simp
  qed
qed

text \<open>
  C9, amended. While a session is waiting for its next frame, the handle is the
  connection opened last and every connection opened so far is live. A start
  event with a call identifier whose connection opens adds a new connection
  whether or not one is live, makes it the handle and closes nothing, so one
  more connection is live. A stop event sends the terminator on the handle
  only: the connection opened last is closed, every earlier one stays live.
  In every session the number of connections opened is at most the number of
  start events received, so at most one connection is live at any time in a
  session that receives at most one start event.
\<close>

theorem newest_connection_only:
  assumes "event_loop e fs initial = (Ok Continue, s)"
  shows "deepgram_socket s = (if dg_opened s = [] then None else Some (last (dg_opened s)))
       \<and> live_connections s = dg_opened s
       \<and> (sd \<noteq> [] \<and> dg_live e (dg_attempts s) \<longrightarrow>
            dg_opened (websocket_endpoint e (fs @ [start_event sd])) = dg_opened s @ [dg_attempts s]
          \<and> deepgram_socket (websocket_endpoint e (fs @ [start_event sd])) = Some (dg_attempts s)
          \<and> live_connections (websocket_endpoint e (fs @ [start_event sd]))
               = live_connections s @ [dg_attempts s]
          \<and> dg_attempts s \<notin> set (dg_opened s))
       \<and> dg_sent (websocket_endpoint e (fs @ stop_event # rest))
            = dg_sent s @ (if dg_opened s = [] then [] else [(last (dg_opened s), [])])
       \<and> dg_opened (websocket_endpoint e (fs @ stop_event # rest)) = dg_opened s
       \<and> live_connections (websocket_endpoint e (fs @ stop_event # rest)) = butlast (dg_opened s)
       \<and> length (dg_opened (websocket_endpoint e gs)) \<le> length (filter is_start_event gs)
       \<and> (length (filter is_start_event gs) \<le> 1 \<longrightarrow>
            length (live_connections (websocket_endpoint e gs)) \<le> 1)
       \<and> deepgram_socket (websocket_endpoint e gs)
            = (if dg_opened (websocket_endpoint e gs) = [] then None
               else Some (last (dg_opened (websocket_endpoint e gs))))
       \<and> (\<forall>k. (k, []) \<in> set (dg_sent (websocket_endpoint e gs)) \<longrightarrow>
              deepgram_socket (websocket_endpoint e gs) = Some k)
       \<and> set (butlast (dg_opened (websocket_endpoint e gs)))
            \<subseteq> set (live_connections (websocket_endpoint e gs))"
proof -
  have inv: "handle_inv s" using assms by (rule running_inv)
  then have sock: "deepgram_socket s = (if dg_opened s = [] then None else Some (last (dg_opened s)))"
    by (simp add: handle_inv_def latest_handle_def)
  have live: "live_connections s = dg_opened s"
    using inv by (rule live_while_running)
  have start: "sd \<noteq> [] \<and> dg_live e (dg_attempts s) \<longrightarrow>
            dg_opened (websocket_endpoint e (fs @ [start_event sd])) = dg_opened s @ [dg_attempts s]
          \<and> deepgram_socket (websocket_endpoint e (fs @ [start_event sd])) = Some (dg_attempts s)
          \<and> live_connections (websocket_endpoint e (fs @ [start_event sd]))
               = live_connections s @ [dg_attempts s]
          \<and> dg_attempts s \<notin> set (dg_opened s)"
    using start_opens_connection [OF assms, of sd] by blast
  note stop = stop_closes_newest [OF assms, of rest]
  note any = handle_is_newest [OF refl, of e gs]
  from sock live start stop any show ?thesis by blast
qed


theorem newest_connection_only_witness:
  "event_loop env_ok [start_event ''CA1''] initial
     = (Ok Continue,
        initial\<lparr>logger := [Error_text ''Invalid JSON received.'', Info_session_start (JStr ''CA1'')],
                dg_attempts := Suc 0, dg_opened := [0], deepgram_socket := Some 0\<rparr>)
   \<and> live_connections (websocket_endpoint env_ok ([start_event ''CA1''] @ [start_event ''CA2'']))
       = [0, 1]
   \<and> dg_sent (websocket_endpoint env_ok ([start_event ''CA1''] @ stop_event # [])) = [(0, [])]
   \<and> live_connections (websocket_endpoint env_ok ([start_event ''CA1''] @ stop_event # [])) = []
   \<and> length (filter is_start_event
         [start_event ''CA1'', media_event ''inbound'' ''AQID'', stop_event]) \<le> 1
   \<and> length (live_connections (websocket_endpoint env_ok
         [start_event ''CA1'', media_event ''inbound'' ''AQID'', stop_event])) \<le> 1"
proof -
  let ?s0 = "initial\<lparr>logger := [Error_text ''Invalid JSON received.'',
                                   Info_session_start (JStr ''CA1'')],
                    dg_attempts := Suc 0, dg_opened := [0], deepgram_socket := Some 0\<rparr>"
  have run: "event_loop env_ok [start_event ''CA1''] initial = (Ok Continue, ?s0)"
    by (simp add: started env_ok_def)
  have facts: "''CA2'' \<noteq> []" "dg_live env_ok (dg_attempts ?s0)"
    "live_connections ?s0 = [0]" "dg_opened ?s0 = [0]" "dg_sent ?s0 = []" "dg_attempts ?s0 = 1"
    "length (filter is_start_event
         [start_event ''CA1'', media_event ''inbound'' ''AQID'', stop_event]) \<le> 1"
    by (simp_all add: env_ok_def live_connections_def initial_def is_start_event_def
        start_event_def media_event_def stop_event_def)
  from newest_connection_only [OF run, of "''CA2''" "[]"
      "[start_event ''CA1'', media_event ''inbound'' ''AQID'', stop_event]"] run facts
  show ?thesis by simp
qed

section \<open>What the handler logs\<close>

lemma mix_loop_logger: "logger (snd (mix_loop s)) = logger s"
proof (induction s rule: mix_loop.induct)
  case (1 s)
  show ?case
    by (subst mix_loop.simps) (auto simp: 1 split: result.splits option.splits)
qed

lemma on_media_logger: "logger (snd (on_media e d s)) = logger s"
  by (auto simp: on_media_def Let_def split: result.splits)

lemma on_stop_logger: "logger (snd (on_stop s)) = logger s"
  by (auto simp: on_stop_def split: option.splits)

lemma on_start_logger:
  "logger (snd (on_start e d s)) = logger s \<or>
   (\<exists>sd. logger (snd (on_start e d s)) = logger s @ [Info_session_start sd])"
  by (auto simp: on_start_def connect_to_deepgram_def split: result.splits)

lemma dispatch_logger:
  "\<exists>extra. logger (snd (if event = JStr ''start'' then on_start e d s
                     else if event = JStr ''media'' then on_media e d s
                     else if event = JStr ''stop'' then on_stop s
                     else (Ok Continue, s))) = logger s @ extra
        \<and> (\<forall>t. Error_text t \<notin> set extra)"
  using on_start_logger [of e d s]
  by (auto simp: on_media_logger on_stop_logger)

lemma after_dispatch_logger:
  "logger (snd (case p of (Ok Continue, s2) \<Rightarrow> mix_loop s2
                | (Ok Break, s2) \<Rightarrow> (Ok Break, s2)
                | (Raise x, s2) \<Rightarrow> (Raise x, s2))) = logger (snd p)"
  by (auto simp: mix_loop_logger split: prod.splits result.splits outcome.splits)

text \<open>
  C10. Every message that decodes as JSON makes the handler log the error line
  "Invalid JSON received." first, before the event is dispatched, whatever the
  event is and however its handling ends; the line is logged once per message.
\<close>

theorem invalid_json_logged_on_valid_json:
  "\<exists>rest. logger (snd (loop_body e (Json d) s))
            = logger s @ Error_text ''Invalid JSON received.'' # rest
        \<and> Error_text ''Invalid JSON received.'' \<notin> set rest"
proof (cases "py_get d ''event'' JNull")
  case (Raise x)
  then show ?thesis by (simp add: loop_body_def)
next
  case (Ok event)
  let ?s1 = "s\<lparr>logger := logger s @ [Error_text ''Invalid JSON received.'']\<rparr>"
  from dispatch_logger [of event e d ?s1] obtain extra where
    ex: "logger (snd (if event = JStr ''start'' then on_start e d ?s1
                     else if event = JStr ''media'' then on_media e d ?s1
                     else if event = JStr ''stop'' then on_stop ?s1
                     else (Ok Continue, ?s1))) = logger ?s1 @ extra"
    and no: "Error_text ''Invalid JSON received.'' \<notin> set extra"
    by blast
  have "logger (snd (loop_body e (Json d) s)) = logger ?s1 @ extra"
    unfolding loop_body_def using Ok ex
    by (simp add: after_dispatch_logger Let_def del: append_assoc)
  then show ?thesis using no by simp
qed


end
